theory Spec2Isabelle
  imports Complex_Main
begin

section \<open>Numbers\<close>

text \<open>
  A TypeScript \<open>number\<close> is an IEEE-754 binary64 value.  A finite non-zero value is
  \<open>Fin m e\<close>, the signed 53-bit significand \<open>m\<close> times \<open>2^e\<close>, in the one normalised form
  that \<open>isNumber\<close> describes; the two zeros, the two infinities and NaN are separate
  constructors.
\<close>

datatype number = NaN | PosInf | NegInf | PosZero | NegZero | Fin int int

definition isNumber :: "number \<Rightarrow> bool" where
  "isNumber x =
     (case x of
        Fin m e \<Rightarrow>
          m \<noteq> 0 \<and> \<bar>m\<bar> < 2 ^ 53 \<and> - 1074 \<le> e \<and> e \<le> 971 \<and> (e = - 1074 \<or> 2 ^ 52 \<le> \<bar>m\<bar>)
      | _ \<Rightarrow> True)"

definition isFinite :: "number \<Rightarrow> bool" where
  "isFinite x = (case x of NaN \<Rightarrow> False | PosInf \<Rightarrow> False | NegInf \<Rightarrow> False | _ \<Rightarrow> True)"

definition pow2 :: "int \<Rightarrow> rat" where
  "pow2 k = (if 0 \<le> k then 2 ^ nat k else 1 / 2 ^ nat (- k))"

definition pow10 :: "int \<Rightarrow> rat" where
  "pow10 k = (if 0 \<le> k then 10 ^ nat k else 1 / 10 ^ nat (- k))"

text \<open>The real value of a finite number; both zeros have the value 0.\<close>

definition realValue :: "number \<Rightarrow> rat" where
  "realValue x = (case x of Fin m e \<Rightarrow> of_int m * pow2 e | _ \<Rightarrow> 0)"

text \<open>The number of binary digits of a positive integer.\<close>

function bits :: "int \<Rightarrow> int" where
  "bits n = (if n \<le> 0 then 0 else 1 + bits (n div 2))"
  by pat_completeness auto
termination
  by (relation "measure nat") auto

declare bits.simps [simp del]

text \<open>
  \<open>ilog2 num den\<close> is the integer \<open>k\<close> with \<open>2^k \<le> num / den < 2^(k+1)\<close>, for positive
  \<open>num\<close> and \<open>den\<close>.
\<close>

definition ilog2 :: "int \<Rightarrow> int \<Rightarrow> int" where
  "ilog2 num den =
     (let k = bits num - bits den
      in if (if 0 \<le> k then den * 2 ^ nat k \<le> num else den \<le> num * 2 ^ nat (- k))
         then k else k - 1)"

text \<open>The integer nearest to \<open>n / d\<close>, the even one of two that are equally near.\<close>

definition roundHalfEven :: "int \<Rightarrow> int \<Rightarrow> int" where
  "roundHalfEven n d =
     (let f = n div d; r = n mod d
      in if 2 * r < d then f
         else if d < 2 * r then f + 1
         else if even f then f else f + 1)"

text \<open>
  The number value of the real \<open>num / den\<close> (\<open>num \<ge> 0\<close>, \<open>den > 0\<close>) with the sign \<open>neg\<close>:
  round to the nearest binary64 value, ties to the even significand.  The significand
  has 53 bits, the least exponent is \<open>-1074\<close>, and a result beyond the largest finite
  value is an infinity.
\<close>

definition roundToDouble :: "bool \<Rightarrow> int \<Rightarrow> int \<Rightarrow> number" where
  "roundToDouble neg num den =
     (if num = 0 then (if neg then NegZero else PosZero)
      else
        let e = max (ilog2 num den - 52) (- 1074);
            m = (if 0 \<le> e then roundHalfEven num (den * 2 ^ nat e)
                 else roundHalfEven (num * 2 ^ nat (- e)) den);
            m' = (if m = 2 ^ 53 then 2 ^ 52 else m);
            e' = (if m = 2 ^ 53 then e + 1 else e)
        in if 971 < e' then (if neg then NegInf else PosInf)
           else if m' = 0 then (if neg then NegZero else PosZero)
           else Fin (if neg then - m' else m') e')"

text \<open>The magnitude of a finite number as a fraction: numerator and denominator.\<close>

definition magnitude :: "int \<Rightarrow> int \<Rightarrow> int \<times> int" where
  "magnitude m e = (if 0 \<le> e then (\<bar>m\<bar> * 2 ^ nat e, 1) else (\<bar>m\<bar>, 2 ^ nat (- e)))"

fun negate :: "number \<Rightarrow> number" where
  "negate NaN = NaN"
| "negate PosInf = NegInf"
| "negate NegInf = PosInf"
| "negate PosZero = NegZero"
| "negate NegZero = PosZero"
| "negate (Fin m e) = Fin (- m) e"

text \<open>
  The exact difference of two finite non-zero values or zeros, given as significands
  and exponents, rounded.
\<close>

definition subFinite :: "int \<Rightarrow> int \<Rightarrow> int \<Rightarrow> int \<Rightarrow> number" where
  "subFinite m1 e1 m2 e2 =
     (let e = min e1 e2;
          d = m1 * 2 ^ nat (e1 - e) - m2 * 2 ^ nat (e2 - e)
      in if d = 0 then PosZero
         else if 0 \<le> e then roundToDouble (d < 0) (\<bar>d\<bar> * 2 ^ nat e) 1
         else roundToDouble (d < 0) \<bar>d\<bar> (2 ^ nat (- e)))"

text \<open>
  \<open>x - y\<close> on numbers.  An exact difference of zero is \<open>+0\<close>, except that
  \<open>(-0) - (+0)\<close> is \<open>-0\<close>.
\<close>

fun numberSub :: "number \<Rightarrow> number \<Rightarrow> number" where
  "numberSub NaN _ = NaN"
| "numberSub _ NaN = NaN"
| "numberSub PosInf PosInf = NaN"
| "numberSub NegInf NegInf = NaN"
| "numberSub PosInf _ = PosInf"
| "numberSub NegInf _ = NegInf"
| "numberSub _ PosInf = NegInf"
| "numberSub _ NegInf = PosInf"
| "numberSub NegZero PosZero = NegZero"
| "numberSub NegZero NegZero = PosZero"
| "numberSub PosZero PosZero = PosZero"
| "numberSub PosZero NegZero = PosZero"
| "numberSub NegZero (Fin m e) = Fin (- m) e"
| "numberSub PosZero (Fin m e) = Fin (- m) e"
| "numberSub (Fin m e) PosZero = Fin m e"
| "numberSub (Fin m e) NegZero = Fin m e"
| "numberSub (Fin m1 e1) (Fin m2 e2) = subFinite m1 e1 m2 e2"

text \<open>\<open>Math.abs\<close>.\<close>

fun mathAbs :: "number \<Rightarrow> number" where
  "mathAbs NaN = NaN"
| "mathAbs PosInf = PosInf"
| "mathAbs NegInf = PosInf"
| "mathAbs PosZero = PosZero"
| "mathAbs NegZero = PosZero"
| "mathAbs (Fin m e) = Fin \<bar>m\<bar> e"

text \<open>
  \<open>x >= y\<close> on numbers: false when either side is NaN.  Two finite values are compared
  as reals, on a common power of two.
\<close>

definition finiteGe :: "number \<Rightarrow> number \<Rightarrow> bool" where
  "finiteGe x y =
     (let (m1, e1) = (case x of Fin m e \<Rightarrow> (m, e) | _ \<Rightarrow> (0, 0));
          (m2, e2) = (case y of Fin m e \<Rightarrow> (m, e) | _ \<Rightarrow> (0, 0));
          e = min e1 e2
      in m2 * 2 ^ nat (e2 - e) \<le> m1 * 2 ^ nat (e1 - e))"

fun numberGe :: "number \<Rightarrow> number \<Rightarrow> bool" where
  "numberGe NaN _ = False"
| "numberGe _ NaN = False"
| "numberGe PosInf _ = True"
| "numberGe _ NegInf = True"
| "numberGe NegInf _ = False"
| "numberGe _ PosInf = False"
| "numberGe x y = finiteGe x y"

text \<open>\<open>x === y\<close> on numbers: NaN differs from itself, the two zeros are equal.\<close>

definition strictEq :: "number \<Rightarrow> number \<Rightarrow> bool" where
  "strictEq x y =
     (x \<noteq> NaN \<and> y \<noteq> NaN \<and>
      (x = y \<or> (x = PosZero \<and> y = NegZero) \<or> (x = NegZero \<and> y = PosZero)))"

section \<open>Decimal digits\<close>

definition isDigit :: "char \<Rightarrow> bool" where
  "isDigit c = (c \<in> set ''0123456789'')"

definition digitChar :: "int \<Rightarrow> char" where
  "digitChar d = ''0123456789'' ! nat d"

definition digitVal :: "char \<Rightarrow> int" where
  "digitVal c = int (length (takeWhile (\<lambda>d. d \<noteq> c) ''0123456789''))"

text \<open>The decimal representation of a non-negative integer, with no leading zeros.\<close>

function digits :: "int \<Rightarrow> string" where
  "digits n = (if n < 10 then [digitChar n] else digits (n div 10) @ [digitChar (n mod 10)])"
  by pat_completeness auto
termination
  by (relation "measure nat") auto

declare digits.simps [simp del]

text \<open>The integer a string of decimal digits denotes.\<close>

definition digitsVal :: "string \<Rightarrow> int" where
  "digitsVal ds = foldl (\<lambda>a c. 10 * a + digitVal c) 0 ds"

text \<open>A number \<open>i\<close> that is an integer, appended to a string: \<open>str + i\<close>.\<close>

definition intToString :: "int \<Rightarrow> string" where
  "intToString i = (if i < 0 then ''-'' @ digits (- i) else digits i)"

section \<open>Built-in conversions between numbers and strings\<close>

subsection \<open>\<open>Number.prototype.toFixed\<close>\<close>

text \<open>
  \<open>Number::toString\<close> (ECMA-262) for a value \<open>x = m * 2^e\<close> of at least \<open>10^21\<close>, the only
  finite values \<open>toFixed\<close> passes to it.  Such a value is an integer \<open>A\<close>.  The standard
  takes integers \<open>n\<close>, \<open>k\<close> and \<open>s\<close> with \<open>k\<close> digits in \<open>s\<close>, \<open>s * 10^(n-k)\<close> rounding to \<open>x\<close>
  and \<open>k\<close> as small as possible, and prints \<open>s\<close> in exponent notation.  Of several
  \<open>s\<close> it recommends the one nearest to \<open>x\<close>, the even one of two equally near.
\<close>

definition roundsTo :: "int \<Rightarrow> int \<Rightarrow> int \<Rightarrow> bool" where
  "roundsTo v m e = (roundToDouble False v 1 = Fin m e)"

definition digitCandidate :: "int \<Rightarrow> int \<Rightarrow> int \<Rightarrow> int \<Rightarrow> int option" where
  "digitCandidate A m e scale =
     (let lo = A div scale; hi = lo + 1;
          okLo = roundsTo (lo * scale) m e; okHi = roundsTo (hi * scale) m e
      in if okLo \<and> okHi then
           Some (if A - lo * scale < hi * scale - A then lo
                 else if hi * scale - A < A - lo * scale then hi
                 else if even lo then lo else hi)
         else if okLo then Some lo
         else if okHi then Some hi
         else None)"

text \<open>
  \<open>shortestDigits A m e j\<close> tries the scales \<open>10^j\<close>, \<open>10^(j-1)\<close>, ... in turn, that is more
  and more digits; at scale 1 the digits are those of \<open>A\<close> itself.
\<close>

fun shortestDigits :: "int \<Rightarrow> int \<Rightarrow> int \<Rightarrow> nat \<Rightarrow> int \<times> nat" where
  "shortestDigits A m e 0 = (A, 0)"
| "shortestDigits A m e (Suc j) =
     (case digitCandidate A m e (10 ^ Suc j) of
        Some s \<Rightarrow> (s, Suc j)
      | None \<Rightarrow> shortestDigits A m e j)"

definition toStringLarge :: "int \<Rightarrow> int \<Rightarrow> string" where
  "toStringLarge m e =
     (let A = m * 2 ^ nat e;
          nd = length (digits A);
          (s, j) = (if roundsTo (10 ^ nd) m e then (1, nd) else shortestDigits A m e (nd - 1));
          ds = digits s;
          n = int (length ds) + int j
      in (if length ds = 1 then ds else take 1 ds @ ''.'' @ drop 1 ds) @ ''e+'' @ digits (n - 1))"

text \<open>
  The digits of \<open>n\<close> with a decimal point before the last \<open>f\<close> of them, padded with
  zeros on the left to \<open>f + 1\<close> digits.
\<close>

definition fixedDigits :: "int \<Rightarrow> nat \<Rightarrow> string" where
  "fixedDigits n f =
     (let m = digits n
      in if f = 0 then m
         else
           let m' = (if length m \<le> f then replicate (f + 1 - length m) (CHR ''0'') @ m else m);
               k = length m'
           in take (k - f) m' @ ''.'' @ drop (k - f) m')"

text \<open>
  \<open>x.toFixed(f)\<close> for \<open>0 \<le> f \<le> 100\<close> (ECMA-262).  For a finite \<open>x\<close> below \<open>10^21\<close> in
  magnitude, \<open>n\<close> is the integer for which \<open>n / 10^f\<close> is nearest to the magnitude of
  \<open>x\<close>, the larger of two equally near.  Negative zero is not below zero, so it prints
  with no sign.
\<close>

definition atLeast1e21 :: "int \<Rightarrow> int \<Rightarrow> bool" where
  "atLeast1e21 m e = (let (num, den) = magnitude m e in 10 ^ 21 * den \<le> num)"

definition scaledNearest :: "int \<Rightarrow> int \<Rightarrow> nat \<Rightarrow> int" where
  "scaledNearest m e f = (let (num, den) = magnitude m e in (2 * num * 10 ^ f + den) div (2 * den))"

definition toFixed :: "number \<Rightarrow> nat \<Rightarrow> string" where
  "toFixed x f =
     (case x of
        NaN \<Rightarrow> ''NaN''
      | PosInf \<Rightarrow> ''Infinity''
      | NegInf \<Rightarrow> ''-Infinity''
      | PosZero \<Rightarrow> fixedDigits 0 f
      | NegZero \<Rightarrow> fixedDigits 0 f
      | Fin m e \<Rightarrow>
          (let sg = (if m < 0 then ''-'' else [])
           in if atLeast1e21 m e then sg @ toStringLarge \<bar>m\<bar> e
              else sg @ fixedDigits (scaledNearest m e f) f))"

subsection \<open>\<open>parseFloat\<close>\<close>

text \<open>
  \<open>parseFloat\<close> (ECMA-262) skips leading white space, takes the longest prefix that is
  a \<open>StrDecimalLiteral\<close> and returns the number value of what it denotes; NaN when
  there is no such prefix.
\<close>

datatype mv = MVInfinity | MVFinite int int

definition isWhiteSpace :: "char \<Rightarrow> bool" where
  "isWhiteSpace c = (c \<in> set [CHR '' '', CHR 0x09, CHR 0x0A, CHR 0x0B, CHR 0x0C, CHR 0x0D])"

text \<open>
  The exponent an \<open>ExponentPart\<close> at the start of the text denotes; 0 when the text
  starts with none.
\<close>

definition exponentPart :: "string \<Rightarrow> int" where
  "exponentPart r =
     (case r of
        [] \<Rightarrow> 0
      | c # r' \<Rightarrow>
          if c = CHR ''e'' \<or> c = CHR ''E'' then
            (case r' of
               [] \<Rightarrow> 0
             | g # r'' \<Rightarrow>
                 if g = CHR ''+'' \<or> g = CHR ''-'' then
                   (let ds = takeWhile isDigit r''
                    in if ds = [] then 0
                       else if g = CHR ''-'' then - digitsVal ds else digitsVal ds)
                 else
                   (let ds = takeWhile isDigit r' in if ds = [] then 0 else digitsVal ds))
          else 0)"

text \<open>
  The value of the longest \<open>StrUnsignedDecimalLiteral\<close> at the start of the text:
  \<open>MVFinite c k\<close> is \<open>c * 10^k\<close>.
\<close>

definition strUnsignedDecimalLiteral :: "string \<Rightarrow> mv option" where
  "strUnsignedDecimalLiteral t =
     (if take 8 t = ''Infinity'' then Some MVInfinity
      else
        let ip = takeWhile isDigit t; r1 = dropWhile isDigit t
        in case r1 of
             [] \<Rightarrow> if ip = [] then None else Some (MVFinite (digitsVal ip) 0)
           | c # r2 \<Rightarrow>
               if c = CHR ''.'' then
                 (let fp = takeWhile isDigit r2; r3 = dropWhile isDigit r2
                  in if ip = [] \<and> fp = [] then None
                     else Some (MVFinite (digitsVal (ip @ fp)) (exponentPart r3 - int (length fp))))
               else if ip = [] then None
               else Some (MVFinite (digitsVal ip) (exponentPart r1)))"

text \<open>The number value of \<open>c * 10^k\<close> for \<open>c \<ge> 0\<close>, with the sign \<open>neg\<close>.\<close>

definition decimalToNumber :: "bool \<Rightarrow> int \<Rightarrow> int \<Rightarrow> number" where
  "decimalToNumber neg c k =
     (if 0 \<le> k then roundToDouble neg (c * 10 ^ nat k) 1 else roundToDouble neg c (10 ^ nat (- k)))"

definition mvToNumber :: "bool \<Rightarrow> mv option \<Rightarrow> number" where
  "mvToNumber neg v =
     (case v of
        None \<Rightarrow> NaN
      | Some MVInfinity \<Rightarrow> (if neg then NegInf else PosInf)
      | Some (MVFinite c k) \<Rightarrow> decimalToNumber neg c k)"

definition parseFloat :: "string \<Rightarrow> number" where
  "parseFloat str =
     (case dropWhile isWhiteSpace str of
        [] \<Rightarrow> NaN
      | c # t \<Rightarrow>
          if c = CHR ''-'' then mvToNumber True (strUnsignedDecimalLiteral t)
          else if c = CHR ''+'' then mvToNumber False (strUnsignedDecimalLiteral t)
          else mvToNumber False (strUnsignedDecimalLiteral (c # t)))"

section \<open>The decimal.js library\<close>

text \<open>
  \<open>Decimal\<close> is the arbitrary-precision decimal of the decimal.js library, which the
  program imports.  A finite value keeps its sign, the exponent \<open>e\<close> of its first
  significant digit and its significant digits with no leading and no trailing zero
  (the library stores the digits in words of seven; \<open>digitsToString\<close> gives them back
  as this string).  The value is \<open>0.d1d2d3... * 10^(e+1)\<close>; zero has the digits \<open>0\<close>
  and the exponent 0.
\<close>

datatype Decimal = DNaN | DInfinity bool | DFinite bool int string

datatype error = Error string

text \<open>The test of the library's regular expression \<open>isDecimal\<close>,
  \<^verbatim>\<open>/^(\d+(\.\d*)?|\.\d+)(e[+-]?\d+)?$/i\<close>.\<close>

definition isExponentOrEnd :: "string \<Rightarrow> bool" where
  "isExponentOrEnd r =
     (case r of
        [] \<Rightarrow> True
      | c # r' \<Rightarrow>
          (c = CHR ''e'' \<or> c = CHR ''E'') \<and>
          (case r' of
             [] \<Rightarrow> False
           | g # r'' \<Rightarrow>
               if g = CHR ''+'' \<or> g = CHR ''-'' then r'' \<noteq> [] \<and> list_all isDigit r''
               else list_all isDigit r'))"

definition isDecimal :: "string \<Rightarrow> bool" where
  "isDecimal v =
     (let ip = takeWhile isDigit v; r1 = dropWhile isDigit v
      in case r1 of
           [] \<Rightarrow> ip \<noteq> []
         | c # r2 \<Rightarrow>
             if c = CHR ''.'' then
               (if ip = [] then takeWhile isDigit r2 \<noteq> [] else True) \<and>
               isExponentOrEnd (dropWhile isDigit r2)
             else ip \<noteq> [] \<and> isExponentOrEnd r1)"

text \<open>\<open>str.indexOf(c)\<close> and \<open>str.search(/e/i)\<close>: the first position, if any.\<close>

definition indexOf :: "(char \<Rightarrow> bool) \<Rightarrow> string \<Rightarrow> nat option" where
  "indexOf P str = (if list_ex P str then Some (length (takeWhile (\<lambda>c. \<not> P c) str)) else None)"

text \<open>Unary plus on the text after the exponent indicator: a signed integer.\<close>

definition toInt :: "string \<Rightarrow> int" where
  "toInt str =
     (case str of
        [] \<Rightarrow> 0
      | g # r \<Rightarrow>
          if g = CHR ''-'' then - digitsVal r
          else if g = CHR ''+'' then digitsVal r
          else digitsVal str)"

definition isZeroChar :: "char \<Rightarrow> bool" where
  "isZeroChar c = (c = CHR ''0'')"

text \<open>
  The library's \<open>parseDecimal\<close>, for a string that passed \<open>isDecimal\<close>: take the decimal
  point out, split the exponent off, strip the leading and the trailing zeros.  The
  exponent limits are the library's defaults, \<open>maxE = 9e15\<close> and \<open>minE = -9e15\<close>.
\<close>

definition parseDecimal :: "bool \<Rightarrow> string \<Rightarrow> Decimal" where
  "parseDecimal neg str0 =
     (let dot = indexOf (\<lambda>c. c = CHR ''.'') str0;
          str1 = (case dot of None \<Rightarrow> str0 | Some _ \<Rightarrow> remove1 (CHR ''.'') str0);
          i = indexOf (\<lambda>c. c = CHR ''e'' \<or> c = CHR ''E'') str1;
          hasExp = (case i of None \<Rightarrow> False | Some k \<Rightarrow> 0 < k);
          e0 = (case dot of
                  Some d \<Rightarrow> int d
                | None \<Rightarrow> (if hasExp then int (the i) else int (length str1)));
          e = (if hasExp then e0 + toInt (drop (the i + 1) str1) else e0);
          str2 = (if hasExp then take (the i) str1 else str1);
          lz = length (takeWhile isZeroChar str2);
          len = length str2 - length (takeWhile isZeroChar (rev str2));
          str3 = drop lz (take len str2)
      in if str3 \<noteq> [] then
           (if 9 * 10 ^ 15 < e - int lz - 1 then DInfinity neg
            else if e - int lz - 1 < - (9 * 10 ^ 15) then DFinite neg 0 ''0''
            else DFinite neg (e - int lz - 1) str3)
         else DFinite neg 0 ''0'')"

text \<open>
  \<open>new Decimal(v)\<close> for a string \<open>v\<close>: a sign, then a decimal numeral, \<open>Infinity\<close> or
  \<open>NaN\<close>.  The library also reads numerals with digit separators and in bases 2, 8 and
  16; they are left out here and rejected as any other text is.
\<close>

definition Decimal_new :: "string \<Rightarrow> error + Decimal" where
  "Decimal_new v =
     (let neg = (case v of [] \<Rightarrow> False | c # _ \<Rightarrow> c = CHR ''-'');
          v' = (case v of [] \<Rightarrow> [] | c # r \<Rightarrow> if c = CHR ''-'' \<or> c = CHR ''+'' then r else v)
      in if isDecimal v' then Inr (parseDecimal neg v')
         else if v' = ''Infinity'' then Inr (DInfinity neg)
         else if v' = ''NaN'' then Inr DNaN
         else Inl (Error (''[DecimalError] Invalid argument: '' @ v')))"

text \<open>
  The library's \<open>finiteToString\<close> on the digits, with the exponent notation switched on
  by \<open>isExp\<close>.
\<close>

definition finiteToString :: "int \<Rightarrow> string \<Rightarrow> bool \<Rightarrow> string" where
  "finiteToString e str isExp =
     (let len = int (length str)
      in if isExp then
           (if 1 < len then take 1 str @ ''.'' @ drop 1 str else str) @
           (if e < 0 then ''e'' else ''e+'') @ intToString e
         else if e < 0 then ''0.'' @ replicate (nat (- e - 1)) (CHR ''0'') @ str
         else if len \<le> e then str @ replicate (nat (e + 1 - len)) (CHR ''0'')
         else if e + 1 < len then take (nat (e + 1)) str @ ''.'' @ drop (nat (e + 1)) str
         else str)"

text \<open>
  \<open>Decimal.prototype.toString\<close> with the library's default configuration
  (\<open>toExpNeg = -7\<close>, \<open>toExpPos = 21\<close>): exponent notation when the exponent is at most
  \<open>-7\<close> or at least 21, and a minus sign only on a negative value that is not zero.
\<close>

definition Decimal_toString :: "Decimal \<Rightarrow> string" where
  "Decimal_toString x =
     (case x of
        DNaN \<Rightarrow> ''NaN''
      | DInfinity neg \<Rightarrow> (if neg then ''-Infinity'' else ''Infinity'')
      | DFinite neg e str \<Rightarrow>
          (let s = finiteToString e str (e \<le> - 7 \<or> 21 \<le> e)
           in if neg \<and> str \<noteq> ''0'' then ''-'' @ s else s))"

section \<open>The canonical decimal encoder\<close>

text \<open>The number the literal \<open>1e-12\<close> denotes.\<close>

definition tolerance :: number where
  "tolerance = decimalToNumber False 1 (- 12)"

definition floatToWire :: "number \<Rightarrow> error + string" where
  "floatToWire x =
     (let rounded = toFixed x 8
      in if numberGe (mathAbs (numberSub (parseFloat rounded) x)) tolerance
         then Inl (Error ''floatToWire causes rounding'')
         else if rounded = ''-0'' then Inr ''0''
         else case Decimal_new rounded of
                Inl err \<Rightarrow> Inl err
              | Inr d \<Rightarrow> Inr (Decimal_toString d))"

section \<open>Client order ids\<close>

text \<open>
  An object of the class \<open>Cloid\<close> exists only when its constructor returned, that is
  when \<open>_validate\<close> did not throw.
\<close>

datatype Cloid = Cloid (rawCloid: string)

definition validate :: "string \<Rightarrow> error + unit" where
  "validate raw =
     (if take 2 raw \<noteq> ''0x'' then Inl (Error ''cloid is not a hex string'')
      else if length (drop 2 raw) \<noteq> 32 then Inl (Error ''cloid is not 16 bytes'')
      else Inr ())"

definition Cloid_new :: "string \<Rightarrow> error + Cloid" where
  "Cloid_new raw = (case validate raw of Inl err \<Rightarrow> Inl err | Inr _ \<Rightarrow> Inr (Cloid raw))"

definition hexChar :: "int \<Rightarrow> char" where
  "hexChar d = ''0123456789abcdef'' ! nat d"

function hexDigits :: "int \<Rightarrow> string" where
  "hexDigits n = (if n < 16 then [hexChar n] else hexDigits (n div 16) @ [hexChar (n mod 16)])"
  by pat_completeness auto
termination
  by (relation "measure nat") auto

declare hexDigits.simps [simp del]

text \<open>\<open>n.toString(16)\<close> for a number \<open>n\<close> that is an integer.\<close>

definition toString16 :: "int \<Rightarrow> string" where
  "toString16 n = (if n < 0 then ''-'' @ hexDigits (- n) else hexDigits n)"

text \<open>\<open>str.padStart(n, c)\<close> for a one-character filler.\<close>

definition padStart :: "string \<Rightarrow> nat \<Rightarrow> char \<Rightarrow> string" where
  "padStart str n c = replicate (n - length str) c @ str"

text \<open>\<open>Cloid.fromInt\<close>, for an argument that is an integer as its name asks.\<close>

definition fromInt :: "int \<Rightarrow> error + Cloid" where
  "fromInt cloid = Cloid_new (''0x'' @ padStart (toString16 cloid) 32 (CHR ''0''))"

definition fromStr :: "string \<Rightarrow> error + Cloid" where
  "fromStr cloid = Cloid_new cloid"

definition toRaw :: "Cloid \<Rightarrow> string" where
  "toRaw cl = rawCloid cl"

section \<open>Order types and orders\<close>

text \<open>
  An optional property of an object: the key may be absent, or present with the value
  \<open>undefined\<close>, or present with a value.
\<close>

datatype 'a field = Absent | Undefined | Present 'a

datatype Tif = Alo | Ioc | Gtc

datatype Tpsl = Tp | Sl

datatype LimitOrderType = LimitOrderType (tif: Tif)

datatype TriggerOrderTypeWire =
  TriggerOrderTypeWire (triggerPxWire: string) (isMarketWire: bool) (tpslWire: Tpsl)

datatype OrderTypeWire =
  OrderTypeWire (limitWire: "LimitOrderType field") (triggerWire: "TriggerOrderTypeWire field")

datatype TriggerOrderType =
  TriggerOrderType (triggerPx: number) (isMarket: bool) (tpsl: Tpsl)

datatype OrderType =
  OrderType (limit: "LimitOrderType field") (trigger: "TriggerOrderType field")

record OrderWire =
  a :: number
  b :: bool
  p :: string
  s :: string
  r :: bool
  t :: OrderTypeWire
  c :: "string field"

text \<open>The property \<open>cloid\<close> of a request may also hold \<open>null\<close>: \<open>Present None\<close>.\<close>

record OrderRequest =
  coin :: string
  is_buy :: bool
  sz :: number
  limit_px :: number
  order_type :: OrderType
  reduce_only :: bool
  cloid :: "Cloid option field"

text \<open>\<open>"limit" in orderType\<close> and the like.\<close>

definition hasKey :: "'a field \<Rightarrow> bool" where
  "hasKey f = (f \<noteq> Absent)"

text \<open>Reading a property: an absent key reads as \<open>undefined\<close>.\<close>

definition getField :: "'a field \<Rightarrow> 'a field" where
  "getField f = (case f of Absent \<Rightarrow> Undefined | _ \<Rightarrow> f)"

definition orderTypeToWire :: "OrderType \<Rightarrow> error + OrderTypeWire" where
  "orderTypeToWire orderType =
     (if hasKey (limit orderType) then Inr (OrderTypeWire (getField (limit orderType)) Absent)
      else
        case trigger orderType of
          Present tr \<Rightarrow>
            (case floatToWire (triggerPx tr) of
               Inl err \<Rightarrow> Inl err
             | Inr px \<Rightarrow>
                 Inr (OrderTypeWire Absent (Present (TriggerOrderTypeWire px (isMarket tr) (tpsl tr)))))
        | _ \<Rightarrow> Inl (Error ''Invalid order type''))"

text \<open>
  The properties of the object literal are evaluated in the order written, so the
  first call that throws decides the error.  An object is truthy, \<open>null\<close> and
  \<open>undefined\<close> are not.
\<close>

definition orderRequestToOrderWire :: "OrderRequest \<Rightarrow> number \<Rightarrow> error + OrderWire" where
  "orderRequestToOrderWire order asset =
     (case floatToWire (limit_px order) of
        Inl err \<Rightarrow> Inl err
      | Inr px \<Rightarrow>
          (case floatToWire (sz order) of
             Inl err \<Rightarrow> Inl err
           | Inr qty \<Rightarrow>
               (case orderTypeToWire (order_type order) of
                  Inl err \<Rightarrow> Inl err
                | Inr tw \<Rightarrow>
                    (let orderWire =
                           \<lparr>a = asset, b = is_buy order, p = px, s = qty,
                            r = reduce_only order, t = tw, c = Absent\<rparr>
                     in case cloid order of
                          Present (Some cl) \<Rightarrow> Inr (orderWire\<lparr>c := Present (toRaw cl)\<rparr>)
                        | _ \<Rightarrow> Inr orderWire))))"

section \<open>Order actions\<close>

record OrderAction =
  type :: string
  orders :: "OrderWire list"
  grouping :: string

definition orderWiresToOrderAction :: "OrderWire list \<Rightarrow> OrderAction" where
  "orderWiresToOrderAction orderWires = \<lparr>type = ''order'', orders = orderWires, grouping = ''na''\<rparr>"

section \<open>Vocabulary of the properties\<close>

text \<open>
  A finite number has at most \<open>f\<close> fraction digits when its value times \<open>10^f\<close> is an
  integer.
\<close>

definition fractionDigitsAtMost :: "number \<Rightarrow> nat \<Rightarrow> bool" where
  "fractionDigitsAtMost x f =
     (case x of
        Fin m e \<Rightarrow> (let (num, den) = magnitude m e in (num * 10 ^ f) mod den = 0)
      | PosZero \<Rightarrow> True
      | NegZero \<Rightarrow> True
      | _ \<Rightarrow> False)"


text \<open>A negative zero on the wire: a minus sign before a numeral whose digits denote 0.\<close>

definition negativeZeroText :: "string \<Rightarrow> bool" where
  "negativeZeroText str =
     (case str of
        [] \<Rightarrow> False
      | ch # rest \<Rightarrow>
          ch = CHR ''-'' \<and>
          (case strUnsignedDecimalLiteral rest of
             Some (MVFinite cf k) \<Rightarrow> cf = 0
           | _ \<Rightarrow> False))"

text \<open>
  A positional decimal numeral in its shortest form: an optional minus sign, integer
  digits with no leading zero (a single \<open>0\<close> apart), then nothing or a point and
  fraction digits the last of which is not zero; and not \<open>-0\<close>.
\<close>

definition isPlainDecimal :: "string \<Rightarrow> bool" where
  "isPlainDecimal str =
     (let body = (case str of [] \<Rightarrow> [] | ch # rest \<Rightarrow> if ch = CHR ''-'' then rest else str);
          ip = takeWhile isDigit body;
          fr = dropWhile isDigit body
      in ip \<noteq> [] \<and> (ip = ''0'' \<or> hd ip \<noteq> CHR ''0'')
         \<and> (case fr of
               [] \<Rightarrow> True
             | ch # fp \<Rightarrow> ch = CHR ''.'' \<and> fp \<noteq> [] \<and> list_all isDigit fp \<and> last fp \<noteq> CHR ''0'')
         \<and> str \<noteq> ''-0'')"

text \<open>A property is populated when its key is present and holds a value.\<close>

definition populated :: "'a field \<Rightarrow> bool" where
  "populated f = (case f of Present _ \<Rightarrow> True | _ \<Rightarrow> False)"

text \<open>The order request that the program itself encodes, with asset id 0.\<close>

definition exampleOrder :: OrderRequest where
  "exampleOrder =
     \<lparr>coin = ''BTC'', is_buy = True, sz = decimalToNumber False 1 (- 3),
      limit_px = decimalToNumber False 90000 0,
      order_type = OrderType (Present (LimitOrderType Gtc)) Absent,
      reduce_only = False, cloid = Absent\<rparr>"

section \<open>Binary exponents\<close>

lemma bits_nonneg: "0 \<le> bits n"
proof (induction n rule: bits.induct)
  case (1 n)
  show ?case
  proof (cases "n \<le> 0")
    case True
    then show ?thesis by (subst bits.simps) simp
  next
    case False
    with 1 have "0 \<le> bits (n div 2)" by simp
    with False show ?thesis by (subst bits.simps) simp
  qed
qed

lemma bits_step: "0 < n \<Longrightarrow> bits n = 1 + bits (n div 2)"
  by (subst bits.simps) simp

lemma bits_pos: "0 < n \<Longrightarrow> 0 < bits n"
  using bits_nonneg [of "n div 2"] by (simp add: bits_step)

lemma bits_bounds: "0 < n \<Longrightarrow> 2 ^ nat (bits n - 1) \<le> n \<and> n < 2 ^ nat (bits n)"
proof (induction n rule: bits.induct)
  case (1 n)
  show ?case
  proof (cases "n = 1")
    case True
    have "bits 1 = 1" by (simp add: bits.simps)
    with True show ?thesis by simp
  next
    case False
    with 1 have h: "0 < n div 2" by simp
    from 1 have nz: "\<not> n \<le> 0" by simp
    from 1(1) [OF nz h]
    have ih: "2 ^ nat (bits (n div 2) - 1) \<le> n div 2" "n div 2 < 2 ^ nat (bits (n div 2))"
      by simp_all
    have bp: "0 < bits (n div 2)" using h by (rule bits_pos)
    have b: "bits n = 1 + bits (n div 2)" using 1(2) by (rule bits_step)
    have e1: "nat (bits n - 1) = Suc (nat (bits (n div 2) - 1))" using b bp by simp
    have e2: "nat (bits n) = Suc (nat (bits (n div 2)))" using b bp by simp
    have d: "2 * (n div 2) \<le> n" "n < 2 * (n div 2) + 2" by presburger+
    from ih d show ?thesis unfolding e1 e2 by simp
  qed
qed

lemma pow2_powi: "pow2 k = 2 powi k"
  by (simp add: pow2_def power_int_def field_simps)

lemma pow2_pos: "0 < pow2 k"
  by (simp add: pow2_powi)

lemma pow2_add: "pow2 (j + k) = pow2 j * pow2 k"
  by (simp add: pow2_powi power_int_add)

lemma pow2_nat: "pow2 (int n) = 2 ^ n"
  by (simp add: pow2_def)

lemma pow2_mono: "j \<le> k \<Longrightarrow> pow2 j \<le> pow2 k"
  by (simp add: pow2_powi power_int_increasing)

lemma pow2_strict_mono: "j < k \<Longrightarrow> pow2 j < pow2 k"
  by (simp add: pow2_powi power_int_strict_increasing)

lemma pow2_less_cancel: "pow2 j < pow2 k \<Longrightarrow> j < k"
  using pow2_mono [of k j] by (cases "j < k") auto

text \<open>The binary exponent of a positive rational is unique.\<close>

lemma pow2_bracket_unique:
  assumes "pow2 j \<le> q" "q < pow2 (j + 1)" "pow2 k \<le> q" "q < pow2 (k + 1)"
  shows "j = k"
proof -
  have "pow2 j < pow2 (k + 1)" using assms by simp
  then have "j < k + 1" by (rule pow2_less_cancel)
  moreover have "pow2 k < pow2 (j + 1)" using assms by simp
  then have "k < j + 1" by (rule pow2_less_cancel)
  ultimately show ?thesis by simp
qed

lemma ilog2_correct:
  assumes "0 < num" "0 < den"
  shows "pow2 (ilog2 num den) \<le> of_int num / of_int den
         \<and> of_int num / of_int den < pow2 (ilog2 num den + 1)"
proof -
  define k where "k = bits num - bits den"
  define q :: rat where "q = of_int num / of_int den"
  have bn: "2 ^ nat (bits num - 1) \<le> num" "num < 2 ^ nat (bits num)"
    using bits_bounds [OF assms(1)] by simp_all
  have bd: "2 ^ nat (bits den - 1) \<le> den" "den < 2 ^ nat (bits den)"
    using bits_bounds [OF assms(2)] by simp_all
  have pn: "0 < bits num" and pd: "0 < bits den"
    using assms by (simp_all add: bits_pos)
  have rn: "pow2 (bits num - 1) \<le> of_int num" "of_int num < pow2 (bits num)"
  proof -
    have "(of_int (2 ^ nat (bits num - 1)) :: rat) \<le> of_int num"
      using bn(1) by (simp only: of_int_le_iff)
    then show "pow2 (bits num - 1) \<le> of_int num" using pn by (simp add: pow2_def)
    have "(of_int num :: rat) < of_int (2 ^ nat (bits num))"
      using bn(2) by (simp only: of_int_less_iff)
    then show "of_int num < pow2 (bits num)" using pn by (simp add: pow2_def)
  qed
  have rd: "pow2 (bits den - 1) \<le> of_int den" "of_int den < pow2 (bits den)"
  proof -
    have "(of_int (2 ^ nat (bits den - 1)) :: rat) \<le> of_int den"
      using bd(1) by (simp only: of_int_le_iff)
    then show "pow2 (bits den - 1) \<le> of_int den" using pd by (simp add: pow2_def)
    have "(of_int den :: rat) < of_int (2 ^ nat (bits den))"
      using bd(2) by (simp only: of_int_less_iff)
    then show "of_int den < pow2 (bits den)" using pd by (simp add: pow2_def)
  qed
  have dpos: "(0::rat) < of_int den" using assms by simp
  have npos: "(0::rat) < of_int num" using assms by simp
  have upper: "q < pow2 (k + 1)"
  proof -
    have "of_int num < pow2 (k + 1) * pow2 (bits den - 1)"
      using rn(2) by (simp add: k_def pow2_add [symmetric])
    also have "\<dots> \<le> pow2 (k + 1) * of_int den"
      using rd(1) pow2_pos [of "k + 1"] by simp
    finally show ?thesis using dpos by (simp add: q_def field_simps)
  qed
  have lower: "pow2 (k - 1) \<le> q"
  proof -
    have "pow2 (k - 1) * of_int den \<le> pow2 (k - 1) * pow2 (bits den)"
      using rd(2) pow2_pos [of "k - 1"] by simp
    also have "\<dots> = pow2 (bits num - 1)"
      by (simp add: k_def pow2_add [symmetric])
    also have "\<dots> \<le> of_int num" by (rule rn(1))
    finally show ?thesis using dpos by (simp add: q_def field_simps)
  qed
  have test: "(if 0 \<le> k then den * 2 ^ nat k \<le> num else den \<le> num * 2 ^ nat (- k)) = (pow2 k \<le> q)"
  proof (cases "0 \<le> k")
    case True
    have "(den * 2 ^ nat k \<le> num) = ((of_int (den * 2 ^ nat k) :: rat) \<le> of_int num)"
      by (simp only: of_int_le_iff)
    also have "\<dots> = (pow2 k \<le> q)"
      using True dpos by (simp add: pow2_def q_def field_simps)
    finally show ?thesis using True by simp
  next
    case False
    have "(den \<le> num * 2 ^ nat (- k)) = ((of_int den :: rat) \<le> of_int (num * 2 ^ nat (- k)))"
      by (simp only: of_int_le_iff)
    also have "\<dots> = (pow2 k \<le> q)"
      using False dpos by (simp add: pow2_def q_def field_simps)
    finally show ?thesis using False by simp
  qed
  have il: "ilog2 num den = (if pow2 k \<le> q then k else k - 1)"
    unfolding ilog2_def Let_def k_def [symmetric] test ..
  show ?thesis
  proof (cases "pow2 k \<le> q")
    case True
    with il upper show ?thesis by (simp add: q_def)
  next
    case False
    with il lower show ?thesis by (simp add: q_def)
  qed
qed

section \<open>Rounding is the identity on numbers\<close>

lemma roundHalfEven_exact: "0 < d \<Longrightarrow> roundHalfEven (k * d) d = k"
  by (simp add: roundHalfEven_def Let_def)

lemma roundToDouble_exact:
  assumes num: "0 < num" and den: "0 < den" and M: "0 < M"
    and wf: "isNumber (Fin M E)"
    and eq: "(of_int num :: rat) / of_int den = of_int M * pow2 E"
  shows "roundToDouble neg num den = Fin (if neg then - M else M) E"
proof -
  define q :: rat where "q = of_int num / of_int den"
  from wf M have Mlt: "M < 2 ^ 53" and El: "- 1074 \<le> E" and Eu: "E \<le> 971"
    and shape: "E = - 1074 \<or> 2 ^ 52 \<le> M"
    by (simp_all add: isNumber_def)
  have il: "pow2 (ilog2 num den) \<le> q" "q < pow2 (ilog2 num den + 1)"
    using ilog2_correct [OF num den] by (simp_all add: q_def)
  have qM: "q = of_int M * pow2 E" using eq by (simp add: q_def)
  have qub: "q < pow2 (E + 53)"
  proof -
    have "(of_int M :: rat) < of_int (2 ^ 53)" using Mlt by (simp only: of_int_less_iff)
    then have "(of_int M :: rat) < pow2 53" by (simp add: pow2_def)
    then have "of_int M * pow2 E < pow2 53 * pow2 E" using pow2_pos [of E] by simp
    then show ?thesis by (simp add: qM pow2_add [symmetric] add.commute)
  qed
  have e: "max (ilog2 num den - 52) (- 1074) = E"
  proof (cases "2 ^ 52 \<le> M")
    case True
    have "(of_int (2 ^ 52) :: rat) \<le> of_int M" using True by (simp only: of_int_le_iff)
    then have "pow2 52 \<le> (of_int M :: rat)" by (simp add: pow2_def)
    then have "pow2 52 * pow2 E \<le> of_int M * pow2 E" using pow2_pos [of E] by simp
    then have qlb: "pow2 (E + 52) \<le> q" by (simp add: qM pow2_add [symmetric] add.commute)
    have "ilog2 num den = E + 52"
      using il qlb qub by (intro pow2_bracket_unique [of _ q]) (simp_all add: add.assoc)
    with El show ?thesis by simp
  next
    case False
    with shape have E: "E = - 1074" by simp
    from False have "M < 2 ^ 52" by simp
    then have "(of_int M :: rat) < of_int (2 ^ 52)" by (simp only: of_int_less_iff)
    then have "(of_int M :: rat) < pow2 52" by (simp add: pow2_def)
    then have "of_int M * pow2 E < pow2 52 * pow2 E" using pow2_pos [of E] by simp
    then have "q < pow2 (E + 52)" by (simp add: qM pow2_add [symmetric] add.commute)
    with il(1) have "pow2 (ilog2 num den) < pow2 (E + 52)" by simp
    then have "ilog2 num den < E + 52" by (rule pow2_less_cancel)
    with E show ?thesis by simp
  qed
  have dpos: "(0::rat) < of_int den" using den by simp
  have m: "(if 0 \<le> E then roundHalfEven num (den * 2 ^ nat E)
            else roundHalfEven (num * 2 ^ nat (- E)) den) = M"
  proof (cases "0 \<le> E")
    case True
    have "(of_int num :: rat) = of_int (M * (den * 2 ^ nat E))"
      using eq dpos True by (simp add: pow2_def field_simps)
    then have "num = M * (den * 2 ^ nat E)" by (simp only: of_int_eq_iff)
    moreover have "0 < den * 2 ^ nat E" using den by simp
    ultimately show ?thesis using True roundHalfEven_exact [of "den * 2 ^ nat E" M] by simp
  next
    case False
    have "(of_int (num * 2 ^ nat (- E)) :: rat) = of_int (M * den)"
      using eq dpos False by (simp add: pow2_def field_simps)
    then have "num * 2 ^ nat (- E) = M * den" by (simp only: of_int_eq_iff)
    then show ?thesis using False roundHalfEven_exact [OF den, of M] by simp
  qed
  have nz: "num \<noteq> 0" using num by simp
  show ?thesis
    unfolding roundToDouble_def Let_def e m using nz Mlt Eu M by simp
qed

section \<open>Decimal digits: properties\<close>

lemma digit_cases:
  assumes "0 \<le> d" "d < 10"
  shows "d = 0 \<or> d = 1 \<or> d = 2 \<or> d = 3 \<or> d = 4 \<or> d = 5 \<or> d = 6 \<or> d = 7 \<or> d = 8 \<or> d = (9::int)"
  using assms by arith

lemma digitChar_props:
  assumes "0 \<le> d" "d < 10"
  shows "isDigit (digitChar d)" "digitVal (digitChar d) = d" "(digitChar d = CHR ''0'') = (d = 0)"
  using digit_cases [OF assms]
  by (auto simp: digitChar_def isDigit_def digitVal_def)

lemma isDigit_cases:
  "isDigit ch \<Longrightarrow> ch = CHR ''0'' \<or> ch = CHR ''1'' \<or> ch = CHR ''2'' \<or> ch = CHR ''3'' \<or> ch = CHR ''4''
     \<or> ch = CHR ''5'' \<or> ch = CHR ''6'' \<or> ch = CHR ''7'' \<or> ch = CHR ''8'' \<or> ch = CHR ''9''"
  by (simp add: isDigit_def)

lemma digitVal_range: "isDigit ch \<Longrightarrow> 0 \<le> digitVal ch \<and> digitVal ch < 10"
  by (auto dest!: isDigit_cases simp: digitVal_def)

lemma digitVal_zero_iff: "isDigit ch \<Longrightarrow> (digitVal ch = 0) = (ch = CHR ''0'')"
  by (auto dest!: isDigit_cases simp: digitVal_def)

lemma digitChar_digitVal: "isDigit ch \<Longrightarrow> digitChar (digitVal ch) = ch"
  by (auto dest!: isDigit_cases simp: digitVal_def digitChar_def)

lemma not_digit_chars [simp]:
  "\<not> isDigit (CHR ''.'')" "\<not> isDigit (CHR ''e'')" "\<not> isDigit (CHR ''-'')" "\<not> isDigit (CHR ''+'')"
  "\<not> isDigit (CHR ''I'')" "\<not> isDigit (CHR ''N'')" "isDigit (CHR ''0'')"
  by (simp_all add: isDigit_def)

lemma digits_small: "n < 10 \<Longrightarrow> digits n = [digitChar n]"
  by (subst digits.simps) simp

lemma digits_step: "10 \<le> n \<Longrightarrow> digits n = digits (n div 10) @ [digitChar (n mod 10)]"
  by (subst digits.simps) simp

lemma digits_nonempty [simp]: "digits n \<noteq> []"
  by (subst digits.simps) simp

lemma digits_all_digits: "0 \<le> n \<Longrightarrow> list_all isDigit (digits n)"
proof (induction n rule: digits.induct)
  case (1 n)
  show ?case
  proof (cases "n < 10")
    case True
    with 1(2) show ?thesis by (simp add: digits_small digitChar_props)
  next
    case False
    then have "list_all isDigit (digits (n div 10))" using 1 by simp
    moreover have "isDigit (digitChar (n mod 10))" by (rule digitChar_props) simp_all
    ultimately show ?thesis using False by (simp add: digits_step)
  qed
qed

lemma digitsVal_snoc: "digitsVal (ds @ [ch]) = 10 * digitsVal ds + digitVal ch"
  by (simp add: digitsVal_def)

lemma digitsVal_Nil [simp]: "digitsVal [] = 0"
  by (simp add: digitsVal_def)

lemma digitsVal_append: "digitsVal (xs @ ys) = digitsVal xs * 10 ^ length ys + digitsVal ys"
proof (induction ys rule: rev_induct)
  case Nil
  show ?case by simp
next
  case (snoc y ys)
  have "digitsVal (xs @ ys @ [y]) = 10 * digitsVal (xs @ ys) + digitVal y"
    using digitsVal_snoc [of "xs @ ys" y] by simp
  then show ?case by (simp add: snoc digitsVal_snoc algebra_simps)
qed

lemma digitsVal_zeros [simp]: "digitsVal (replicate k (CHR ''0'')) = 0"
proof (induction k)
  case 0
  show ?case by simp
next
  case (Suc k)
  have "replicate (Suc k) (CHR ''0'') = replicate k (CHR ''0'') @ [CHR ''0'']"
    by (simp add: replicate_append_same)
  then show ?case using Suc by (simp add: digitsVal_snoc digitVal_def)
qed

lemma digitsVal_nonneg: "list_all isDigit ds \<Longrightarrow> 0 \<le> digitsVal ds"
proof (induction ds rule: rev_induct)
  case Nil
  show ?case by simp
next
  case (snoc y ys)
  then show ?case using digitVal_range [of y] by (simp add: digitsVal_snoc)
qed

lemma digitsVal_digits: "0 \<le> n \<Longrightarrow> digitsVal (digits n) = n"
proof (induction n rule: digits.induct)
  case (1 n)
  show ?case
  proof (cases "n < 10")
    case True
    with 1(2) show ?thesis
      using digitsVal_snoc [of "[]" "digitChar n"] by (simp add: digits_small digitChar_props)
  next
    case False
    then have "digitsVal (digits (n div 10)) = n div 10" using 1 by simp
    moreover have "digitVal (digitChar (n mod 10)) = n mod 10" by (rule digitChar_props) simp_all
    ultimately show ?thesis using False by (simp add: digits_step digitsVal_snoc)
  qed
qed

lemma hd_digits_nonzero: "0 < n \<Longrightarrow> hd (digits n) \<noteq> CHR ''0''"
proof (induction n rule: digits.induct)
  case (1 n)
  show ?case
  proof (cases "n < 10")
    case True
    with 1(2) show ?thesis by (simp add: digits_small digitChar_props)
  next
    case False
    then have "hd (digits (n div 10)) \<noteq> CHR ''0''" using 1 by simp
    with False show ?thesis by (simp add: digits_step)
  qed
qed

lemma digits_length_bounds:
  "0 \<le> n \<Longrightarrow> n < 10 ^ length (digits n) \<and> (0 < n \<longrightarrow> 10 ^ (length (digits n) - 1) \<le> n)"
proof (induction n rule: digits.induct)
  case (1 n)
  show ?case
  proof (cases "n < 10")
    case True
    with 1(2) show ?thesis by (auto simp: digits_small)
  next
    case False
    then have ih: "n div 10 < 10 ^ length (digits (n div 10))"
      "10 ^ (length (digits (n div 10)) - 1) \<le> n div 10"
      using 1 by simp_all
    have d: "10 * (n div 10) \<le> n" "n < 10 * (n div 10) + 10" by presburger+
    have l: "length (digits n) = Suc (length (digits (n div 10)))"
      using False by (simp add: digits_step)
    obtain k where l': "length (digits (n div 10)) = Suc k"
      using digits_nonempty [of "n div 10"] by (cases "digits (n div 10)") auto
    have "10 * 10 ^ (length (digits (n div 10)) - 1) \<le> n" using ih(2) d by simp
    then have "10 ^ length (digits (n div 10)) \<le> n" unfolding l' by simp
    moreover have "n < 10 * 10 ^ length (digits (n div 10))" using ih(1) d by simp
    ultimately show ?thesis unfolding l by simp
  qed
qed

section \<open>Reading numerals\<close>

lemma pow10_powi: "pow10 k = 10 powi k"
  by (simp add: pow10_def power_int_def field_simps)

lemma pow10_pos: "0 < pow10 k"
  by (simp add: pow10_powi)

lemma pow10_add: "pow10 (j + k) = pow10 j * pow10 k"
  by (simp add: pow10_powi power_int_add)

lemma pow10_nat: "pow10 (int n) = 10 ^ n"
  by (simp add: pow10_def)

lemma pow10_0 [simp]: "pow10 0 = 1"
  by (simp add: pow10_def)

lemma decimalToNumber_exact:
  assumes cf: "0 < cf" and M: "0 < M" and wf: "isNumber (Fin M E)"
    and eq: "(of_int cf :: rat) * pow10 k = of_int M * pow2 E"
  shows "decimalToNumber neg cf k = Fin (if neg then - M else M) E"
proof (cases "0 \<le> k")
  case True
  have "(of_int (cf * 10 ^ nat k) :: rat) / of_int 1 = of_int M * pow2 E"
    using eq True by (simp add: pow10_def)
  moreover have "0 < cf * 10 ^ nat k" using cf by simp
  ultimately have "roundToDouble neg (cf * 10 ^ nat k) 1 = Fin (if neg then - M else M) E"
    using M wf by (intro roundToDouble_exact) simp_all
  with True show ?thesis by (simp add: decimalToNumber_def)
next
  case False
  have "(of_int cf :: rat) / of_int (10 ^ nat (- k)) = of_int M * pow2 E"
    using eq False by (simp add: pow10_def)
  moreover have "(0::int) < 10 ^ nat (- k)" by simp
  ultimately have "roundToDouble neg cf (10 ^ nat (- k)) = Fin (if neg then - M else M) E"
    using cf M wf by (intro roundToDouble_exact) simp_all
  with False show ?thesis by (simp add: decimalToNumber_def)
qed

lemma takeWhile_digits_append:
  assumes "list_all isDigit ip" "rest = [] \<or> \<not> isDigit (hd rest)"
  shows "takeWhile isDigit (ip @ rest) = ip" "dropWhile isDigit (ip @ rest) = rest"
proof -
  have a: "\<And>x. x \<in> set ip \<Longrightarrow> isDigit x" using assms(1) by (simp add: list_all_iff)
  have t: "takeWhile isDigit rest = []" "dropWhile isDigit rest = rest"
    using assms(2) by (cases rest; simp)+
  show "takeWhile isDigit (ip @ rest) = ip" using a t by (simp add: takeWhile_append2)
  show "dropWhile isDigit (ip @ rest) = rest" using a t by (simp add: dropWhile_append2)
qed

lemma takeWhile_digits_all:
  assumes "list_all isDigit ip"
  shows "takeWhile isDigit ip = ip" "dropWhile isDigit ip = []"
  using takeWhile_digits_append [OF assms, of "[]"] by simp_all

lemma digit_start_not_Infinity:
  assumes "list_all isDigit ip" "ip \<noteq> []"
  shows "take 8 (ip @ rest) \<noteq> ''Infinity''"
proof -
  obtain d ds where ip: "ip = d # ds" using assms(2) by (cases ip) auto
  with assms(1) have "isDigit d" by simp
  then have "d \<noteq> CHR ''I''" by (auto simp: isDigit_def)
  then show ?thesis by (simp add: ip eval_nat_numeral)
qed

lemma exponentPart_Nil [simp]: "exponentPart [] = 0"
  by (simp add: exponentPart_def)

lemma exponentPart_text:
  "exponentPart ((if E < 0 then ''e'' else ''e+'') @ intToString E) = E"
proof (cases "E < 0")
  case True
  have d: "list_all isDigit (digits (- E))" using True by (intro digits_all_digits) simp
  have v: "digitsVal (digits (- E)) = - E" using True by (intro digitsVal_digits) simp
  show ?thesis using True v
    by (simp add: exponentPart_def intToString_def takeWhile_digits_all [OF d])
next
  case False
  have d: "list_all isDigit (digits E)" using False by (intro digits_all_digits) simp
  have v: "digitsVal (digits E) = E" using False by (intro digitsVal_digits) simp
  show ?thesis using False v
    by (simp add: exponentPart_def intToString_def takeWhile_digits_all [OF d])
qed

lemma exponent_text_start:
  "(if E < 0 then ''e'' else ''e+'') @ intToString E = CHR ''e'' # tl ((if E < 0 then ''e'' else ''e+'') @ intToString E)"
  by simp

text \<open>Parsing a numeral \<open>ip.fp\<close>, \<open>ip\<close> or either with an exponent part.\<close>

lemma parse_point:
  assumes ip: "list_all isDigit ip" "ip \<noteq> []" and fp: "list_all isDigit fp"
    and ex: "ex = [] \<or> ex = (if E < 0 then ''e'' else ''e+'') @ intToString E"
  shows "strUnsignedDecimalLiteral (ip @ CHR ''.'' # fp @ ex) =
         Some (MVFinite (digitsVal (ip @ fp)) ((if ex = [] then 0 else E) - int (length fp)))"
proof -
  have nd: "ex = [] \<or> \<not> isDigit (hd ex)" using ex by (cases "E < 0") auto
  have t1: "takeWhile isDigit (ip @ CHR ''.'' # fp @ ex) = ip"
    "dropWhile isDigit (ip @ CHR ''.'' # fp @ ex) = CHR ''.'' # fp @ ex"
    using takeWhile_digits_append [OF ip(1), of "CHR ''.'' # fp @ ex"] by simp_all
  have t2: "takeWhile isDigit (fp @ ex) = fp" "dropWhile isDigit (fp @ ex) = ex"
    using takeWhile_digits_append [OF fp nd] by simp_all
  have ni: "take 8 (ip @ CHR ''.'' # fp @ ex) \<noteq> ''Infinity''"
    using ip by (rule digit_start_not_Infinity)
  have e: "exponentPart ex = (if ex = [] then 0 else E)"
    using ex exponentPart_text [of E] by auto
  show ?thesis
    unfolding strUnsignedDecimalLiteral_def Let_def t1
    using ni ip(2) by (simp add: t2 e)
qed

lemma parse_plain:
  assumes ip: "list_all isDigit ip" "ip \<noteq> []"
    and ex: "ex = [] \<or> ex = (if E < 0 then ''e'' else ''e+'') @ intToString E"
  shows "strUnsignedDecimalLiteral (ip @ ex) =
         Some (MVFinite (digitsVal ip) (if ex = [] then 0 else E))"
proof -
  have nd: "ex = [] \<or> \<not> isDigit (hd ex)" using ex by (cases "E < 0") auto
  have t1: "takeWhile isDigit (ip @ ex) = ip" "dropWhile isDigit (ip @ ex) = ex"
    using takeWhile_digits_append [OF ip(1) nd] by simp_all
  have ni: "take 8 (ip @ ex) \<noteq> ''Infinity''"
    using ip by (rule digit_start_not_Infinity)
  have e: "exponentPart ex = (if ex = [] then 0 else E)"
    using ex exponentPart_text [of E] by auto
  show ?thesis
  proof (cases "ex = []")
    case True
    then show ?thesis
      unfolding strUnsignedDecimalLiteral_def Let_def t1
      using ni ip(2) by simp
  next
    case False
    then obtain rest where exc: "ex = CHR ''e'' # rest" using ex by (cases "E < 0") auto
    have e': "exponentPart (CHR ''e'' # rest) = E" using e False exc by simp
    show ?thesis
      unfolding strUnsignedDecimalLiteral_def Let_def t1
      using ni ip(2) False by (simp add: exc e')
  qed
qed

section \<open>Reading what the library prints\<close>

lemma list_all_take_drop:
  "list_all P xs \<Longrightarrow> list_all P (take n xs) \<and> list_all P (drop n xs)"
  by (metis append_take_drop_id list_all_append)

lemma list_all_zeros [simp]: "list_all isDigit (replicate n (CHR ''0''))"
  by (simp add: list_all_iff)

text \<open>
  What the text that \<open>finiteToString\<close> prints denotes, read back as a numeral: the digits
  times the power of ten that puts the first digit at the exponent \<open>e\<close>.
\<close>

lemma parse_finiteToString:
  assumes ds: "list_all isDigit ds" "ds \<noteq> []"
  shows "\<exists>cf k. strUnsignedDecimalLiteral (finiteToString e ds isExp) = Some (MVFinite cf k)
           \<and> (of_int cf :: rat) * pow10 k = of_int (digitsVal ds) * pow10 (e + 1 - int (length ds))"
proof -
  define len where "len = int (length ds)"
  have lenpos: "0 < len" using ds(2) by (simp add: len_def)
  show ?thesis
  proof (cases isExp)
    case True
    define ex where "ex = (if e < 0 then ''e'' else ''e+'') @ intToString e"
    have exne: "ex \<noteq> []" by (simp add: ex_def)
    have exf: "ex = [] \<or> ex = (if e < 0 then ''e'' else ''e+'') @ intToString e"
      by (simp add: ex_def)
    show ?thesis
    proof (cases "1 < len")
      case l: True
      have ip: "list_all isDigit (take 1 ds)" "take 1 ds \<noteq> []"
        using ds list_all_take_drop [of isDigit ds 1] by (auto simp: take_Suc_conv_app_nth)
      have fp: "list_all isDigit (drop 1 ds)"
        using ds list_all_take_drop [of isDigit ds 1] by simp
      have "strUnsignedDecimalLiteral (take 1 ds @ CHR ''.'' # drop 1 ds @ ex) =
            Some (MVFinite (digitsVal (take 1 ds @ drop 1 ds)) ((if ex = [] then 0 else e) - int (length (drop 1 ds))))"
        using ip fp exf by (rule parse_point)
      moreover have "finiteToString e ds True = take 1 ds @ CHR ''.'' # drop 1 ds @ ex"
        using l by (simp add: finiteToString_def len_def ex_def)
      moreover have "pow10 (e - (int (length ds) - 1)) = pow10 (e + 1 - int (length ds))"
        by (rule arg_cong [where f = pow10]) simp
      ultimately show ?thesis using True exne l by (simp add: len_def)
    next
      case l: False
      with lenpos have l1: "length ds = 1" by (cases ds) (auto simp: len_def)
      have "strUnsignedDecimalLiteral (ds @ ex) =
            Some (MVFinite (digitsVal ds) (if ex = [] then 0 else e))"
        using ds exf by (rule parse_plain)
      moreover have "finiteToString e ds True = ds @ ex"
        using l by (simp add: finiteToString_def len_def ex_def)
      ultimately show ?thesis using True exne l1 by simp
    qed
  next
    case False
    consider (neg) "e < 0" | (long) "0 \<le> e" "len \<le> e" | (mid) "0 \<le> e" "e + 1 < len"
      | (full) "0 \<le> e" "e + 1 = len"
      by linarith
    then show ?thesis
    proof cases
      case neg
      define fp where "fp = replicate (nat (- e - 1)) (CHR ''0'') @ ds"
      have fpd: "list_all isDigit fp" using ds by (simp add: fp_def)
      have "strUnsignedDecimalLiteral (''0'' @ CHR ''.'' # fp @ []) =
            Some (MVFinite (digitsVal (''0'' @ fp)) ((if ([]::string) = [] then 0 else 0) - int (length fp)))"
        using fpd by (intro parse_point) simp_all
      moreover have "finiteToString e ds False = ''0'' @ CHR ''.'' # fp @ []"
        using neg by (simp add: finiteToString_def fp_def)
      moreover have "digitsVal (''0'' @ fp) = digitsVal ds"
        using digitsVal_snoc [of "[]" "CHR ''0''"]
        by (simp add: fp_def digitsVal_append digitVal_def del: append.simps)
      moreover have "- int (length fp) = e + 1 - int (length ds)"
        using neg by (simp add: fp_def)
      ultimately show ?thesis using False by simp
    next
      case long
      define z where "z = nat (e + 1 - len)"
      have ipd: "list_all isDigit (ds @ replicate z (CHR ''0''))" "ds @ replicate z (CHR ''0'') \<noteq> []"
        using ds by simp_all
      have "strUnsignedDecimalLiteral ((ds @ replicate z (CHR ''0'')) @ []) =
            Some (MVFinite (digitsVal (ds @ replicate z (CHR ''0''))) (if ([]::string) = [] then 0 else 0))"
        using ipd by (intro parse_plain) simp_all
      moreover have "finiteToString e ds False = (ds @ replicate z (CHR ''0'')) @ []"
        using long lenpos by (simp add: finiteToString_def z_def len_def)
      moreover have "digitsVal (ds @ replicate z (CHR ''0'')) = digitsVal ds * 10 ^ z"
        by (simp add: digitsVal_append)
      moreover have "pow10 (e + 1 - int (length ds)) = 10 ^ z"
        using long by (simp add: z_def len_def pow10_def)
      ultimately show ?thesis using False by simp
    next
      case mid
      define j where "j = nat (e + 1)"
      have jpos: "0 < j" "j < length ds" using mid by (simp_all add: j_def len_def)
      have ip: "list_all isDigit (take j ds)" "take j ds \<noteq> []"
        using ds list_all_take_drop [of isDigit ds j] jpos by auto
      have fp: "list_all isDigit (drop j ds)"
        using ds list_all_take_drop [of isDigit ds j] by simp
      have "strUnsignedDecimalLiteral (take j ds @ CHR ''.'' # drop j ds @ []) =
            Some (MVFinite (digitsVal (take j ds @ drop j ds)) ((if ([]::string) = [] then 0 else 0) - int (length (drop j ds))))"
        using ip fp by (intro parse_point) simp_all
      moreover have "finiteToString e ds False = take j ds @ CHR ''.'' # drop j ds @ []"
        using mid by (simp add: finiteToString_def j_def len_def)
      moreover have "- int (length (drop j ds)) = e + 1 - int (length ds)"
        using mid by (simp add: j_def len_def)
      ultimately show ?thesis using False by simp
    next
      case full
      have "strUnsignedDecimalLiteral (ds @ []) =
            Some (MVFinite (digitsVal ds) (if ([]::string) = [] then 0 else 0))"
        using ds by (intro parse_plain) simp_all
      moreover have "finiteToString e ds False = ds @ []"
        using full by (simp add: finiteToString_def len_def)
      ultimately show ?thesis using False full by (simp add: len_def)
    qed
  qed
qed

section \<open>Stripping zeros\<close>

lemma digitsVal_zero_iff:
  "list_all isDigit ds \<Longrightarrow> (digitsVal ds = 0) = (\<forall>ch \<in> set ds. ch = CHR ''0'')"
proof (induction ds rule: rev_induct)
  case Nil
  show ?case by simp
next
  case (snoc y ys)
  then have d: "list_all isDigit ys" "isDigit y" by simp_all
  have nn: "0 \<le> digitsVal ys" using d(1) by (rule digitsVal_nonneg)
  have r: "0 \<le> digitVal y" using digitVal_range [OF d(2)] by simp
  have "(digitsVal (ys @ [y]) = 0) = (digitsVal ys = 0 \<and> digitVal y = 0)"
    using nn r by (auto simp: digitsVal_snoc)
  then show ?case using snoc.IH [OF d(1)] digitVal_zero_iff [OF d(2)] by auto
qed

lemma all_zero_replicate:
  "(\<forall>ch \<in> set xs. isZeroChar ch) \<Longrightarrow> xs = replicate (length xs) (CHR ''0'')"
  by (intro replicate_eqI) (simp_all add: isZeroChar_def)

text \<open>
  A string of digits that are not all zero is its leading zeros, a core that neither
  starts nor ends with a zero, and its trailing zeros; \<open>parseDecimal\<close> keeps the core.
\<close>

lemma strip_zeros:
  assumes dg: "list_all isDigit D" and nz: "digitsVal D \<noteq> 0"
  defines "lz \<equiv> length (takeWhile isZeroChar D)"
    and "tz \<equiv> length (takeWhile isZeroChar (rev D))"
  defines "core \<equiv> drop lz (take (length D - tz) D)"
  shows "D = replicate lz (CHR ''0'') @ core @ replicate tz (CHR ''0'')"
    and "core \<noteq> []" and "hd core \<noteq> CHR ''0''" and "last core \<noteq> CHR ''0''"
proof -
  define A where "A = takeWhile isZeroChar D"
  define B where "B = dropWhile isZeroChar D"
  have D: "D = A @ B" by (simp add: A_def B_def)
  have A: "A = replicate lz (CHR ''0'')"
    unfolding lz_def A_def [symmetric]
    by (rule all_zero_replicate) (auto simp: A_def dest: set_takeWhileD)
  obtain x where x: "x \<in> set D" "x \<noteq> CHR ''0''"
    using nz digitsVal_zero_iff [OF dg] by auto
  have Bne: "B \<noteq> []"
    unfolding B_def using x by (auto simp: dropWhile_eq_Nil_conv isZeroChar_def)
  have hdB: "hd B \<noteq> CHR ''0''"
    using hd_dropWhile [of isZeroChar D] Bne by (simp add: B_def isZeroChar_def)
  have hdB_in: "hd B \<in> set (rev B)" using Bne by simp
  have tw: "takeWhile isZeroChar (rev D) = takeWhile isZeroChar (rev B)"
    unfolding D using hdB_in hdB by (simp add: takeWhile_append1 isZeroChar_def)
  define T where "T = takeWhile isZeroChar (rev B)"
  define C where "C = dropWhile isZeroChar (rev B)"
  have rB: "rev B = T @ C" by (simp add: T_def C_def)
  have T: "T = replicate tz (CHR ''0'')"
    unfolding tz_def tw T_def [symmetric]
    by (rule all_zero_replicate) (auto simp: T_def dest: set_takeWhileD)
  have Cne: "C \<noteq> []"
    unfolding C_def using hdB_in hdB by (auto simp: dropWhile_eq_Nil_conv isZeroChar_def)
  have hdC: "hd C \<noteq> CHR ''0''"
    using hd_dropWhile [of isZeroChar "rev B"] Cne by (simp add: C_def isZeroChar_def)
  have "B = rev (T @ C)" using rB by (metis rev_rev_ident)
  then have B: "B = rev C @ replicate tz (CHR ''0'')" by (simp add: T)
  have Dfull: "D = replicate lz (CHR ''0'') @ rev C @ replicate tz (CHR ''0'')"
    using D A B by simp
  have len: "length D - tz = lz + length C"
    by (subst Dfull) simp
  have "take (length D - tz) D = replicate lz (CHR ''0'') @ rev C"
    unfolding len by (subst Dfull) simp
  then have core: "core = rev C" by (simp add: core_def)
  show "D = replicate lz (CHR ''0'') @ core @ replicate tz (CHR ''0'')"
    using Dfull core by simp
  show "core \<noteq> []" using core Cne by simp
  show "last core \<noteq> CHR ''0''" using core Cne hdC by (simp add: last_rev)
  have "last C = last (rev B)" using rB Cne by simp
  then have "last C = hd B" using Bne by (simp add: last_rev)
  then show "hd core \<noteq> CHR ''0''" using core Cne hdB by (simp add: hd_rev)
qed

lemma strip_all_zero:
  assumes dg: "list_all isDigit D" and z: "digitsVal D = 0"
  shows "drop (length (takeWhile isZeroChar D)) (take n D) = []"
proof -
  have "\<forall>ch \<in> set D. isZeroChar ch"
    using z digitsVal_zero_iff [OF dg] by (simp add: isZeroChar_def)
  then have tw: "takeWhile isZeroChar D = D" by (simp add: takeWhile_eq_all_conv)
  show ?thesis unfolding tw by simp
qed

lemma digitsVal_leading_zeros: "digitsVal (replicate n (CHR ''0'') @ ds) = digitsVal ds"
  by (simp add: digitsVal_append)

lemma digitsVal_trailing_zeros: "digitsVal (ds @ replicate n (CHR ''0'')) = digitsVal ds * 10 ^ n"
  by (simp add: digitsVal_append)

section \<open>The library's parser\<close>

lemma indexOf_found:
  "(\<forall>x \<in> set xs. \<not> P x) \<Longrightarrow> P y \<Longrightarrow> indexOf P (xs @ y # ys) = Some (length xs)"
  by (auto simp: indexOf_def takeWhile_append2 list_ex_iff)

lemma indexOf_none: "(\<forall>x \<in> set xs. \<not> P x) \<Longrightarrow> indexOf P xs = None"
  by (simp add: indexOf_def list_ex_iff)

lemma isDigit_not_mark:
  "isDigit ch \<Longrightarrow> ch \<noteq> CHR ''.'' \<and> ch \<noteq> CHR ''e'' \<and> ch \<noteq> CHR ''E'' \<and> ch \<noteq> CHR ''+'' \<and> ch \<noteq> CHR ''-''"
  by (auto simp: isDigit_def)

lemma digits_no_mark:
  assumes "list_all isDigit ds"
  shows "\<forall>x \<in> set ds. \<not> (x = CHR ''.'')" "\<forall>x \<in> set ds. \<not> (x = CHR ''e'' \<or> x = CHR ''E'')"
    "CHR ''.'' \<notin> set ds"
  using assms isDigit_not_mark by (auto simp: list_all_iff)

text \<open>
  \<open>parseDecimal\<close> on a numeral made of the integer digits \<open>ip\<close>, the fraction digits \<open>fp\<close>
  after a point if there is one, and an exponent part \<open>e+E\<close> if there is one.
\<close>

lemma parseDecimal_form:
  assumes ip: "list_all isDigit ip" "ip \<noteq> []" and fp: "list_all isDigit fp"
    and nodot: "hasDot \<or> fp = []"
    and ex: "ex = [] \<or> (ex = ''e+'' @ digits E \<and> 0 \<le> E)"
  shows "parseDecimal neg (ip @ (if hasDot then CHR ''.'' # fp else []) @ ex) =
     (let D = ip @ fp;
          lz = length (takeWhile isZeroChar D);
          len = length D - length (takeWhile isZeroChar (rev D));
          str3 = drop lz (take len D);
          e3 = int (length ip) + (if ex = [] then 0 else E) - int lz - 1
      in if str3 \<noteq> [] then
           (if 9 * 10 ^ 15 < e3 then DInfinity neg
            else if e3 < - (9 * 10 ^ 15) then DFinite neg 0 ''0''
            else DFinite neg e3 str3)
         else DFinite neg 0 ''0'')"
proof -
  define str0 where "str0 = ip @ (if hasDot then CHR ''.'' # fp else []) @ ex"
  define D where "D = ip @ fp"
  have Dd: "list_all isDigit D" using ip fp by (simp add: D_def)
  have Dne: "D \<noteq> []" using ip by (simp add: D_def)
  have exd: "ex = [] \<or> (ex = CHR ''e'' # CHR ''+'' # digits E \<and> 0 \<le> E)" using ex by auto
  have Ed: "0 \<le> E \<Longrightarrow> list_all isDigit (digits E)" by (rule digits_all_digits)
  have exnodot: "CHR ''.'' \<notin> set ex"
    using exd Ed digits_no_mark(3) [of "digits E"] by auto
  have dot: "indexOf (\<lambda>ch. ch = CHR ''.'') str0 = (if hasDot then Some (length ip) else None)"
  proof (cases hasDot)
    case True
    have "indexOf (\<lambda>ch. ch = CHR ''.'') (ip @ CHR ''.'' # fp @ ex) = Some (length ip)"
      using digits_no_mark(1) [OF ip(1)] by (intro indexOf_found) simp_all
    with True show ?thesis by (simp add: str0_def)
  next
    case False
    have "\<forall>x \<in> set (ip @ ex). \<not> (x = CHR ''.'')"
      using digits_no_mark(3) [OF ip(1)] exnodot by auto
    then have "indexOf (\<lambda>ch. ch = CHR ''.'') (ip @ ex) = None" by (rule indexOf_none)
    with False show ?thesis by (simp add: str0_def)
  qed
  have str1: "(case (if hasDot then Some (length ip) else None) of None \<Rightarrow> str0
               | Some _ \<Rightarrow> remove1 (CHR ''.'') str0) = D @ ex"
  proof (cases hasDot)
    case True
    have "remove1 (CHR ''.'') (ip @ CHR ''.'' # fp @ ex) = ip @ fp @ ex"
      using digits_no_mark(3) [OF ip(1)] by (simp add: remove1_append)
    with True show ?thesis by (simp add: str0_def D_def)
  next
    case False
    with nodot show ?thesis by (simp add: str0_def D_def)
  qed
  have idx: "indexOf (\<lambda>ch. ch = CHR ''e'' \<or> ch = CHR ''E'') (D @ ex) =
             (if ex = [] then None else Some (length D))"
  proof (cases "ex = []")
    case True
    then show ?thesis using digits_no_mark(2) [OF Dd] by (simp add: indexOf_none)
  next
    case False
    with exd have e: "ex = CHR ''e'' # CHR ''+'' # digits E" by simp
    have "indexOf (\<lambda>ch. ch = CHR ''e'' \<or> ch = CHR ''E'') (D @ CHR ''e'' # CHR ''+'' # digits E) = Some (length D)"
      using digits_no_mark(2) [OF Dd] by (intro indexOf_found) simp_all
    with False e show ?thesis by simp
  qed
  have ti: "ex \<noteq> [] \<Longrightarrow> toInt (drop (length D + 1) (D @ ex)) = E"
  proof -
    assume "ex \<noteq> []"
    with exd have e: "ex = CHR ''e'' # CHR ''+'' # digits E" "0 \<le> E" by simp_all
    have "digitsVal (digits E) = E" using e(2) by (rule digitsVal_digits)
    then show ?thesis by (simp add: e(1) toInt_def)
  qed
  show ?thesis
    unfolding parseDecimal_def str0_def [symmetric] dot Let_def str1 idx D_def [symmetric]
    using Dne nodot ti by (cases "ex = []"; cases hasDot; simp add: D_def)
qed

section \<open>From a numeral to a decimal\<close>

lemma isExponentOrEnd_text: "0 \<le> E \<Longrightarrow> isExponentOrEnd (''e+'' @ digits E)"
  using digits_all_digits [of E] by (simp add: isExponentOrEnd_def)

lemma isExponentOrEnd_Nil [simp]: "isExponentOrEnd []"
  by (simp add: isExponentOrEnd_def)

lemma isDecimal_form:
  assumes ip: "list_all isDigit ip" "ip \<noteq> []" and fp: "list_all isDigit fp"
    and ex: "ex = [] \<or> (ex = ''e+'' @ digits E \<and> 0 \<le> E)"
  shows "isDecimal (ip @ (if hasDot then CHR ''.'' # fp else []) @ ex)"
proof -
  have exok: "isExponentOrEnd ex" using ex isExponentOrEnd_text by auto
  have nd: "ex = [] \<or> \<not> isDigit (hd ex)" using ex by auto
  show ?thesis
  proof (cases hasDot)
    case True
    have t1: "takeWhile isDigit (ip @ CHR ''.'' # fp @ ex) = ip"
      "dropWhile isDigit (ip @ CHR ''.'' # fp @ ex) = CHR ''.'' # fp @ ex"
      using takeWhile_digits_append [OF ip(1), of "CHR ''.'' # fp @ ex"] by simp_all
    have t2: "dropWhile isDigit (fp @ ex) = ex"
      using takeWhile_digits_append [OF fp nd] by simp
    show ?thesis using True ip(2) exok by (simp add: isDecimal_def Let_def t1 t2)
  next
    case False
    have t1: "takeWhile isDigit (ip @ ex) = ip" "dropWhile isDigit (ip @ ex) = ex"
      using takeWhile_digits_append [OF ip(1) nd] by simp_all
    show ?thesis
    proof (cases "ex = []")
      case True
      with False ip(2) show ?thesis
        by (simp add: isDecimal_def Let_def takeWhile_digits_all [OF ip(1)])
    next
      case ne: False
      with ex have e: "ex = CHR ''e'' # CHR ''+'' # digits E" by auto
      have "isDecimal (ip @ CHR ''e'' # CHR ''+'' # digits E)"
        using t1 ip(2) exok by (simp add: isDecimal_def Let_def e)
      with False e show ?thesis by simp
    qed
  qed
qed

text \<open>What a numeral of this form denotes, and the decimal the library makes of it.\<close>

lemma parse_form:
  assumes ip: "list_all isDigit ip" "ip \<noteq> []" and fp: "list_all isDigit fp"
    and nodot: "hasDot \<or> fp = []"
    and ex: "ex = [] \<or> (ex = ''e+'' @ digits E \<and> 0 \<le> E)"
  shows "strUnsignedDecimalLiteral (ip @ (if hasDot then CHR ''.'' # fp else []) @ ex) =
         Some (MVFinite (digitsVal (ip @ fp)) ((if ex = [] then 0 else E) - int (length fp)))"
proof -
  have ex': "ex = [] \<or> ex = (if E < 0 then ''e'' else ''e+'') @ intToString E"
    using ex by (auto simp: intToString_def)
  show ?thesis
  proof (cases hasDot)
    case True
    then show ?thesis using parse_point [OF ip fp ex'] by simp
  next
    case False
    with nodot have "fp = []" by simp
    with False show ?thesis using parse_plain [OF ip ex'] by simp
  qed
qed

lemma decimal_of_form:
  assumes ip: "list_all isDigit ip" "ip \<noteq> []" and fp: "list_all isDigit fp"
    and nodot: "hasDot \<or> fp = []"
    and ex: "ex = [] \<or> (ex = ''e+'' @ digits E \<and> 0 \<le> E)"
    and ub: "int (length ip) + (if ex = [] then 0 else E) \<le> 9 * 10 ^ 15"
    and lb: "int (length (ip @ fp)) < 9 * 10 ^ 15"
  shows "\<exists>e3 ds. parseDecimal neg (ip @ (if hasDot then CHR ''.'' # fp else []) @ ex) = DFinite neg e3 ds
           \<and> list_all isDigit ds \<and> ds \<noteq> []
           \<and> (of_int (digitsVal ds) :: rat) * pow10 (e3 + 1 - int (length ds)) =
               of_int (digitsVal (ip @ fp)) * pow10 ((if ex = [] then 0 else E) - int (length fp))
           \<and> (if digitsVal (ip @ fp) = 0 then ds = ''0'' \<and> e3 = 0
               else hd ds \<noteq> CHR ''0'' \<and> last ds \<noteq> CHR ''0'' \<and>
                    e3 = int (length ip) + (if ex = [] then 0 else E)
                         - int (length (takeWhile isZeroChar (ip @ fp))) - 1)"
proof -
  define D where "D = ip @ fp"
  define lz where "lz = length (takeWhile isZeroChar D)"
  define tz where "tz = length (takeWhile isZeroChar (rev D))"
  define core where "core = drop lz (take (length D - tz) D)"
  define E' where "E' = (if ex = [] then 0 else E)"
  define e3 where "e3 = int (length ip) + E' - int lz - 1"
  have Dd: "list_all isDigit D" using ip fp by (simp add: D_def)
  have pd: "parseDecimal neg (ip @ (if hasDot then CHR ''.'' # fp else []) @ ex) =
     (if core \<noteq> [] then
        (if 9 * 10 ^ 15 < e3 then DInfinity neg
         else if e3 < - (9 * 10 ^ 15) then DFinite neg 0 ''0''
         else DFinite neg e3 core)
      else DFinite neg 0 ''0'')"
    using parseDecimal_form [OF ip fp nodot ex, of neg]
    unfolding Let_def D_def [symmetric] lz_def [symmetric] tz_def [symmetric]
        core_def [symmetric] E'_def [symmetric] e3_def [symmetric] .
  show ?thesis
  proof (cases "digitsVal D = 0")
    case True
    have "core = []" unfolding core_def lz_def using Dd True by (rule strip_all_zero)
    with pd True show ?thesis
      using digitsVal_snoc [of "[]" "CHR ''0''"]
      by (simp add: D_def digitVal_def)
  next
    case False
    have dec: "D = replicate lz (CHR ''0'') @ core @ replicate tz (CHR ''0'')"
      and cne: "core \<noteq> []" and hdc: "hd core \<noteq> CHR ''0''" and lastc: "last core \<noteq> CHR ''0''"
      using strip_zeros [OF Dd False] by (simp_all add: lz_def tz_def core_def)
    have cd: "list_all isDigit core"
      using Dd by (subst (asm) dec) simp
    have lenD: "length D = lz + length core + tz" by (subst dec) simp
    have lzle: "int lz \<le> int (length D)" using lenD by simp
    have r1: "\<not> 9 * 10 ^ 15 < e3" using ub by (simp add: e3_def E'_def)
    have E'nn: "0 \<le> E'" using ex by (auto simp: E'_def)
    have r2: "\<not> e3 < - (9 * 10 ^ 15)" using lb lzle E'nn by (simp add: e3_def D_def)
    have val: "digitsVal D = digitsVal core * 10 ^ tz"
      by (subst dec) (simp add: digitsVal_leading_zeros digitsVal_trailing_zeros)
    have lenip: "int (length ip) = int lz + int (length core) + int tz - int (length fp)"
      using lenD by (simp add: D_def)
    have ex3: "e3 + 1 - int (length core) = int tz + (E' - int (length fp))"
      by (simp add: e3_def lenip)
    have "(of_int (digitsVal core) :: rat) * pow10 (e3 + 1 - int (length core)) =
          of_int (digitsVal core) * (pow10 (int tz) * pow10 (E' - int (length fp)))"
      unfolding ex3 by (simp add: pow10_add)
    also have "\<dots> = of_int (digitsVal D) * pow10 (E' - int (length fp))"
      by (simp add: val pow10_nat)
    finally have value_eq: "(of_int (digitsVal core) :: rat) * pow10 (e3 + 1 - int (length core)) =
          of_int (digitsVal D) * pow10 (E' - int (length fp))" .
    show ?thesis
      using pd cne r1 r2 cd hdc lastc value_eq False
      by (simp add: D_def E'_def e3_def lz_def)
  qed
qed

section \<open>Rounding depends on the value only\<close>

lemma roundHalfEven_floor:
  assumes d: "0 < d"
  shows "roundHalfEven n d =
     (let q = (of_int n :: rat) / of_int d; f = \<lfloor>q\<rfloor>
      in if 2 * (q - of_int f) < 1 then f
         else if 1 < 2 * (q - of_int f) then f + 1
         else if even f then f else f + 1)"
proof -
  define q :: rat where "q = of_int n / of_int d"
  have f: "\<lfloor>q\<rfloor> = n div d" by (simp add: q_def floor_divide_of_int_eq)
  have dpos: "(0::rat) < of_int d" using d by simp
  have "(of_int (n mod d) :: rat) = of_int n - of_int d * of_int (n div d)"
    by (simp add: minus_mult_div_eq_mod [symmetric] del: minus_mult_div_eq_mod)
  then have fr: "q - of_int (n div d) = of_int (n mod d) / of_int d"
    using dpos by (simp add: q_def field_simps)
  have c1: "(2 * (q - of_int (n div d)) < 1) = (2 * (n mod d) < d)"
  proof -
    have "(2 * (q - of_int (n div d)) < 1) = ((of_int (2 * (n mod d)) :: rat) < of_int d)"
      using dpos by (simp add: fr field_simps)
    also have "\<dots> = (2 * (n mod d) < d)" by (simp only: of_int_less_iff)
    finally show ?thesis .
  qed
  have c2: "(1 < 2 * (q - of_int (n div d))) = (d < 2 * (n mod d))"
  proof -
    have "(1 < 2 * (q - of_int (n div d))) = ((of_int d :: rat) < of_int (2 * (n mod d)))"
      using dpos by (simp add: fr field_simps)
    also have "\<dots> = (d < 2 * (n mod d))" by (simp only: of_int_less_iff)
    finally show ?thesis .
  qed
  show ?thesis
    unfolding roundHalfEven_def Let_def q_def [symmetric] f c1 c2 ..
qed

lemma roundHalfEven_cong:
  assumes "0 < d" "0 < d'" "(of_int n :: rat) / of_int d = of_int n' / of_int d'"
  shows "roundHalfEven n d = roundHalfEven n' d'"
  by (simp add: roundHalfEven_floor [OF assms(1)] roundHalfEven_floor [OF assms(2)] assms(3))

text \<open>Rounding depends on the value of the fraction only.\<close>

lemma roundToDouble_cong:
  assumes pos: "0 < num" "0 < den" "0 < num'" "0 < den'"
    and eq: "(of_int num :: rat) / of_int den = of_int num' / of_int den'"
  shows "roundToDouble neg num den = roundToDouble neg num' den'"
proof -
  define q :: rat where "q = of_int num / of_int den"
  have il: "ilog2 num den = ilog2 num' den'"
    using ilog2_correct [OF pos(1,2)] ilog2_correct [OF pos(3,4)] eq
    by (intro pow2_bracket_unique [of _ q]) (simp_all add: q_def)
  define e where "e = max (ilog2 num den - 52) (- 1074)"
  have m: "(if 0 \<le> e then roundHalfEven num (den * 2 ^ nat e)
            else roundHalfEven (num * 2 ^ nat (- e)) den) =
           (if 0 \<le> e then roundHalfEven num' (den' * 2 ^ nat e)
            else roundHalfEven (num' * 2 ^ nat (- e)) den')"
  proof (cases "0 \<le> e")
    case True
    have "roundHalfEven num (den * 2 ^ nat e) = roundHalfEven num' (den' * 2 ^ nat e)"
      using pos eq by (intro roundHalfEven_cong) (simp_all add: field_simps)
    with True show ?thesis by simp
  next
    case False
    have "roundHalfEven (num * 2 ^ nat (- e)) den = roundHalfEven (num' * 2 ^ nat (- e)) den'"
      using pos eq by (intro roundHalfEven_cong) (simp_all add: field_simps)
    with False show ?thesis by simp
  qed
  have nz: "num \<noteq> 0" "num' \<noteq> 0" using pos by simp_all
  show ?thesis
    unfolding roundToDouble_def Let_def il [symmetric] e_def [symmetric] m [symmetric]
    using nz by simp
qed

lemma decimalToNumber_ratio:
  assumes "0 < cf"
  shows "\<exists>num den. 0 < num \<and> 0 < den \<and> decimalToNumber neg cf k = roundToDouble neg num den
     \<and> (of_int num :: rat) / of_int den = of_int cf * pow10 k"
proof (cases "0 \<le> k")
  case True
  have "0 < cf * 10 ^ nat k \<and> (0::int) < 1
        \<and> decimalToNumber neg cf k = roundToDouble neg (cf * 10 ^ nat k) 1
        \<and> (of_int (cf * 10 ^ nat k) :: rat) / of_int 1 = of_int cf * pow10 k"
    using assms True by (simp add: decimalToNumber_def pow10_def)
  then show ?thesis by blast
next
  case False
  have "0 < cf \<and> (0::int) < 10 ^ nat (- k)
        \<and> decimalToNumber neg cf k = roundToDouble neg cf (10 ^ nat (- k))
        \<and> (of_int cf :: rat) / of_int (10 ^ nat (- k)) = of_int cf * pow10 k"
    using assms False by (simp add: decimalToNumber_def pow10_def)
  then show ?thesis by blast
qed

lemma decimalToNumber_cong:
  assumes "0 \<le> cf" "0 \<le> cf'" "(of_int cf :: rat) * pow10 k = of_int cf' * pow10 k'"
  shows "decimalToNumber neg cf k = decimalToNumber neg cf' k'"
proof (cases "cf = 0")
  case True
  with assms(3) have "cf' = 0" using pow10_pos [of k'] by simp
  with True show ?thesis by (simp add: decimalToNumber_def roundToDouble_def)
next
  case False
  with assms(3) have "cf' \<noteq> 0" using pow10_pos [of k] by auto
  with assms False have p: "0 < cf" "0 < cf'" by simp_all
  obtain num den where a: "0 < num" "0 < den" "decimalToNumber neg cf k = roundToDouble neg num den"
    "(of_int num :: rat) / of_int den = of_int cf * pow10 k"
    using decimalToNumber_ratio [OF p(1)] by blast
  obtain num' den' where b: "0 < num'" "0 < den'" "decimalToNumber neg cf' k' = roundToDouble neg num' den'"
    "(of_int num' :: rat) / of_int den' = of_int cf' * pow10 k'"
    using decimalToNumber_ratio [OF p(2)] by blast
  have "roundToDouble neg num den = roundToDouble neg num' den'"
    using a b assms(3) by (intro roundToDouble_cong) simp_all
  with a b show ?thesis by simp
qed

section \<open>A numeral through the decimal and back\<close>

lemma isDigit_not_space: "isDigit ch \<Longrightarrow> \<not> isWhiteSpace ch"
  by (auto simp: isDigit_def isWhiteSpace_def)

lemma parseFloat_signed:
  assumes "isDigit d"
  shows "parseFloat ((if neg then ''-'' else []) @ d # rest) =
         mvToNumber neg (strUnsignedDecimalLiteral (d # rest))"
  using assms isDigit_not_space [OF assms] isDigit_not_mark [OF assms]
  by (simp add: parseFloat_def isWhiteSpace_def)

lemma Decimal_new_signed:
  assumes "isDigit d" "isDecimal (d # rest)"
  shows "Decimal_new ((if neg then ''-'' else []) @ d # rest) = Inr (parseDecimal neg (d # rest))"
  using assms isDigit_not_mark [OF assms(1)]
  by (simp add: Decimal_new_def)

lemma finiteToString_start:
  assumes ds: "list_all isDigit ds" "ds \<noteq> []"
  shows "\<exists>d rest. finiteToString e ds isExp = d # rest \<and> isDigit d"
proof -
  obtain d0 ds0 where d: "ds = d0 # ds0" "isDigit d0" using ds by (cases ds) auto
  show ?thesis
  proof (cases "0 \<le> e \<and> e + 1 < int (length ds)")
    case True
    then have "take (nat (e + 1)) ds = d0 # take (nat e) ds0"
      by (simp add: d nat_add_distrib take_Suc_Cons [symmetric] del: take_Suc_Cons)
    with True d show ?thesis by (simp add: finiteToString_def Let_def)
  next
    case False
    with d show ?thesis by (auto simp: finiteToString_def Let_def)
  qed
qed

text \<open>
  What the text printed for a decimal denotes as a number: the number value of the
  decimal's magnitude, negative when the decimal is negative and not zero.
\<close>

lemma parseFloat_toString:
  assumes ds: "list_all isDigit ds" "ds \<noteq> []"
  shows "\<exists>cf k. parseFloat (Decimal_toString (DFinite neg e ds)) = decimalToNumber (neg \<and> ds \<noteq> ''0'') cf k
           \<and> 0 \<le> cf
           \<and> (of_int cf :: rat) * pow10 k = of_int (digitsVal ds) * pow10 (e + 1 - int (length ds))"
proof -
  define isExp where "isExp = (e \<le> - 7 \<or> 21 \<le> e)"
  define sg where "sg = (neg \<and> ds \<noteq> ''0'')"
  obtain cf k where p: "strUnsignedDecimalLiteral (finiteToString e ds isExp) = Some (MVFinite cf k)"
    and v: "(of_int cf :: rat) * pow10 k = of_int (digitsVal ds) * pow10 (e + 1 - int (length ds))"
    using parse_finiteToString [where e = e and isExp = isExp, OF ds] by blast
  obtain d rest where st: "finiteToString e ds isExp = d # rest" "isDigit d"
    using finiteToString_start [where e = e and isExp = isExp, OF ds] by blast
  have "Decimal_toString (DFinite neg e ds) = (if sg then ''-'' else []) @ d # rest"
    by (simp add: Decimal_toString_def Let_def isExp_def [symmetric] st sg_def)
  then have "parseFloat (Decimal_toString (DFinite neg e ds)) =
             mvToNumber sg (strUnsignedDecimalLiteral (d # rest))"
    using parseFloat_signed [where neg = sg and rest = rest, OF st(2)] by simp
  then have pf: "parseFloat (Decimal_toString (DFinite neg e ds)) = decimalToNumber sg cf k"
    using p by (simp add: st mvToNumber_def)
  have "0 \<le> digitsVal ds" using ds(1) by (rule digitsVal_nonneg)
  then have "(0::rat) \<le> of_int (digitsVal ds) * pow10 (e + 1 - int (length ds))"
    using pow10_pos [of "e + 1 - int (length ds)"] by simp
  then have "(0::rat) \<le> of_int cf * pow10 k" using v by simp
  then have "(0::rat) \<le> of_int cf" using pow10_pos [of k] by (simp add: zero_le_mult_iff)
  then have "0 \<le> cf" by simp
  with pf v show ?thesis unfolding sg_def by blast
qed

text \<open>
  The decimal made of a signed numeral, printed and read back, is the number the
  numeral itself denotes; a numeral of value zero comes back as \<open>+0\<close>.
\<close>

lemma numeral_through_decimal:
  fixes neg :: bool
  assumes ip: "list_all isDigit ip" "ip \<noteq> []" and fp: "list_all isDigit fp"
    and nodot: "hasDot \<or> fp = []"
    and ex: "ex = [] \<or> (ex = ''e+'' @ digits E \<and> 0 \<le> E)"
    and ub: "int (length ip) + (if ex = [] then 0 else E) \<le> 9 * 10 ^ 15"
    and lb: "int (length (ip @ fp)) < 9 * 10 ^ 15"
  defines "numl \<equiv> ip @ (if hasDot then CHR ''.'' # fp else []) @ ex"
  defines "sg \<equiv> (if neg then ''-'' else [])"
  shows "parseFloat (sg @ numl) =
           decimalToNumber neg (digitsVal (ip @ fp)) ((if ex = [] then 0 else E) - int (length fp))"
    and "\<exists>e3 ds. Decimal_new (sg @ numl) = Inr (DFinite neg e3 ds)
           \<and> list_all isDigit ds \<and> ds \<noteq> []
           \<and> (if digitsVal (ip @ fp) = 0 then ds = ''0'' \<and> e3 = 0
               else hd ds \<noteq> CHR ''0'' \<and> last ds \<noteq> CHR ''0'' \<and>
                    e3 = int (length ip) + (if ex = [] then 0 else E)
                         - int (length (takeWhile isZeroChar (ip @ fp))) - 1)
           \<and> (of_int (digitsVal ds) :: rat) * pow10 (e3 + 1 - int (length ds)) =
               of_int (digitsVal (ip @ fp)) * pow10 ((if ex = [] then 0 else E) - int (length fp))
           \<and> parseFloat (Decimal_toString (DFinite neg e3 ds)) =
               decimalToNumber (neg \<and> digitsVal (ip @ fp) \<noteq> 0) (digitsVal (ip @ fp))
                 ((if ex = [] then 0 else E) - int (length fp))"
proof -
  obtain d0 ip0 where d: "ip = d0 # ip0" "isDigit d0" using ip by (cases ip) auto
  define rest where "rest = ip0 @ (if hasDot then CHR ''.'' # fp else []) @ ex"
  have numl: "numl = d0 # rest" by (simp add: numl_def rest_def d)
  define v where "v = digitsVal (ip @ fp)"
  define ee where "ee = (if ex = [] then 0 else E) - int (length fp)"
  have vnn: "0 \<le> v" unfolding v_def using ip fp by (intro digitsVal_nonneg) simp
  have pr: "strUnsignedDecimalLiteral numl = Some (MVFinite v ee)"
    unfolding numl_def v_def ee_def using ip fp nodot ex by (rule parse_form)
  show "parseFloat (sg @ numl) =
           decimalToNumber neg (digitsVal (ip @ fp)) ((if ex = [] then 0 else E) - int (length fp))"
    using parseFloat_signed [where neg = neg and rest = rest, OF d(2)] pr
    by (simp add: sg_def numl mvToNumber_def v_def ee_def)
  have isd: "isDecimal (d0 # rest)"
    using isDecimal_form [where hasDot = hasDot, OF ip fp ex] by (simp add: numl_def [symmetric] numl)
  have dn: "Decimal_new (sg @ numl) = Inr (parseDecimal neg numl)"
    using Decimal_new_signed [where neg = neg, OF d(2) isd] by (simp add: sg_def numl)
  obtain e3 ds where pd: "parseDecimal neg numl = DFinite neg e3 ds"
    and dsd: "list_all isDigit ds" "ds \<noteq> []"
    and val: "(of_int (digitsVal ds) :: rat) * pow10 (e3 + 1 - int (length ds)) = of_int v * pow10 ee"
    and shape: "if v = 0 then ds = ''0'' \<and> e3 = 0
               else hd ds \<noteq> CHR ''0'' \<and> last ds \<noteq> CHR ''0'' \<and>
                    e3 = int (length ip) + (if ex = [] then 0 else E)
                         - int (length (takeWhile isZeroChar (ip @ fp))) - 1"
    using decimal_of_form [where hasDot = hasDot and neg = neg, OF ip fp nodot ex ub lb]
    unfolding numl_def [symmetric] v_def [symmetric] ee_def [symmetric] by blast
  obtain cf k where pf: "parseFloat (Decimal_toString (DFinite neg e3 ds)) =
        decimalToNumber (neg \<and> ds \<noteq> ''0'') cf k"
    and cfnn: "0 \<le> cf"
    and cv: "(of_int cf :: rat) * pow10 k = of_int (digitsVal ds) * pow10 (e3 + 1 - int (length ds))"
    using parseFloat_toString [where neg = neg and e = e3, OF dsd] by blast
  have z: "(ds \<noteq> ''0'') = (v \<noteq> 0)"
  proof (cases "v = 0")
    case True
    with shape show ?thesis by simp
  next
    case False
    with shape have "hd ds \<noteq> CHR ''0''" by simp
    with False show ?thesis by auto
  qed
  have "decimalToNumber (neg \<and> ds \<noteq> ''0'') cf k = decimalToNumber (neg \<and> v \<noteq> 0) v ee"
    unfolding z using cfnn vnn cv val by (intro decimalToNumber_cong) simp_all
  with pf have again: "parseFloat (Decimal_toString (DFinite neg e3 ds)) =
       decimalToNumber (neg \<and> v \<noteq> 0) v ee" by simp
  show "\<exists>e3 ds. Decimal_new (sg @ numl) = Inr (DFinite neg e3 ds)
           \<and> list_all isDigit ds \<and> ds \<noteq> []
           \<and> (if digitsVal (ip @ fp) = 0 then ds = ''0'' \<and> e3 = 0
               else hd ds \<noteq> CHR ''0'' \<and> last ds \<noteq> CHR ''0'' \<and>
                    e3 = int (length ip) + (if ex = [] then 0 else E)
                         - int (length (takeWhile isZeroChar (ip @ fp))) - 1)
           \<and> (of_int (digitsVal ds) :: rat) * pow10 (e3 + 1 - int (length ds)) =
               of_int (digitsVal (ip @ fp)) * pow10 ((if ex = [] then 0 else E) - int (length fp))
           \<and> parseFloat (Decimal_toString (DFinite neg e3 ds)) =
               decimalToNumber (neg \<and> digitsVal (ip @ fp) \<noteq> 0) (digitsVal (ip @ fp))
                 ((if ex = [] then 0 else E) - int (length fp))"
  proof -
    have A: "Decimal_new (sg @ numl) = Inr (DFinite neg e3 ds)" using dn pd by simp
    have B: "if digitsVal (ip @ fp) = 0 then ds = ''0'' \<and> e3 = 0
               else hd ds \<noteq> CHR ''0'' \<and> last ds \<noteq> CHR ''0'' \<and>
                    e3 = int (length ip) + (if ex = [] then 0 else E)
                         - int (length (takeWhile isZeroChar (ip @ fp))) - 1"
      using shape unfolding v_def .
    have C: "parseFloat (Decimal_toString (DFinite neg e3 ds)) =
               decimalToNumber (neg \<and> digitsVal (ip @ fp) \<noteq> 0) (digitsVal (ip @ fp))
                 ((if ex = [] then 0 else E) - int (length fp))"
      using again unfolding v_def ee_def .
    have V: "(of_int (digitsVal ds) :: rat) * pow10 (e3 + 1 - int (length ds)) =
               of_int (digitsVal (ip @ fp)) * pow10 ((if ex = [] then 0 else E) - int (length fp))"
      using val unfolding v_def ee_def .
    from A dsd B V C show ?thesis by blast
  qed
qed

section \<open>The text of a rounded number\<close>

lemma div_bracket:
  fixes d :: int
  assumes "0 < d"
  shows "d * (n div d) \<le> n" "n < d * (n div d) + d"
proof -
  have e: "d * (n div d) + n mod d = n" by (rule mult_div_mod_eq)
  have "0 \<le> n mod d" "n mod d < d" using assms by simp_all
  with e show "d * (n div d) \<le> n" "n < d * (n div d) + d" by linarith+
qed

lemma magnitude_props:
  assumes "magnitude m e = (num, den)"
  shows "0 < den" "0 \<le> num" "(of_int num :: rat) / of_int den = of_int \<bar>m\<bar> * pow2 e"
    "m \<noteq> 0 \<Longrightarrow> 0 < num"
  using assms by (auto simp: magnitude_def pow2_def split: if_splits)

lemma digits_length_le:
  assumes "0 \<le> n" "n < 10 ^ k" "0 < k"
  shows "length (digits n) \<le> k"
proof (cases "n = 0")
  case True
  then show ?thesis using assms(3) by (simp add: digits_small)
next
  case False
  with assms(1) have "0 < n" by simp
  then have "(10::int) ^ (length (digits n) - 1) \<le> n"
    using digits_length_bounds [OF assms(1)] by simp
  with assms(2) have "(10::int) ^ (length (digits n) - 1) < 10 ^ k" by linarith
  then have "length (digits n) - 1 < k" by (simp only: power_strict_increasing_iff)
  then show ?thesis by simp
qed

lemma digits_length_gt:
  assumes "0 \<le> n" "10 ^ k \<le> n"
  shows "k < length (digits n)"
proof -
  have "n < 10 ^ length (digits n)" using digits_length_bounds [OF assms(1)] by simp
  with assms(2) have "(10::int) ^ k < 10 ^ length (digits n)" by linarith
  then show ?thesis by (simp only: power_strict_increasing_iff)
qed

text \<open>The text of \<open>n / 10^8\<close> with its eight fraction digits.\<close>

lemma fixedDigits_form:
  assumes "0 \<le> K"
  shows "\<exists>ip fp. fixedDigits K 8 = ip @ CHR ''.'' # fp
           \<and> list_all isDigit ip \<and> ip \<noteq> [] \<and> list_all isDigit fp \<and> length fp = 8
           \<and> digitsVal (ip @ fp) = K
           \<and> ip @ fp = replicate (9 - length (digits K)) (CHR ''0'') @ digits K"
proof -
  define m' where "m' = replicate (9 - length (digits K)) (CHR ''0'') @ digits K"
  define k where "k = length m'"
  have pad: "(if length (digits K) \<le> 8 then replicate (8 + 1 - length (digits K)) (CHR ''0'') @ digits K
              else digits K) = m'"
    by (simp add: m'_def)
  have k9: "9 \<le> k" by (simp add: k_def m'_def)
  have md: "list_all isDigit m'"
    using digits_all_digits [OF assms] by (simp add: m'_def)
  have mv: "digitsVal m' = K"
    using digitsVal_digits [OF assms] by (simp add: m'_def digitsVal_leading_zeros)
  have fd: "fixedDigits K 8 = take (k - 8) m' @ CHR ''.'' # drop (k - 8) m'"
    unfolding fixedDigits_def Let_def pad k_def by simp
  have "take (k - 8) m' \<noteq> []" using k9 by (cases m') (auto simp: k_def)
  moreover have "length (drop (k - 8) m') = 8" using k9 by (simp add: k_def [symmetric])
  moreover have "list_all isDigit (take (k - 8) m')" "list_all isDigit (drop (k - 8) m')"
    using list_all_take_drop [OF md, of "k - 8"] by simp_all
  ultimately show ?thesis using fd mv unfolding m'_def [symmetric] 
    by (intro exI [of _ "take (k - 8) m'"] exI [of _ "drop (k - 8) m'"]) simp
qed

section \<open>Encoding numbers below 10^21\<close>

lemma scaledNearest_bounds:
  assumes small: "\<not> atLeast1e21 m e"
  shows "0 \<le> scaledNearest m e 8" "scaledNearest m e 8 < 10 ^ 30"
proof -
  obtain num den where md: "magnitude m e = (num, den)" by (cases "magnitude m e")
  have den: "0 < den" and num: "0 \<le> num" using magnitude_props [OF md] by simp_all
  have lt: "num < 10 ^ 21 * den" using small by (simp add: atLeast1e21_def md)
  define K where "K = (2 * num * 10 ^ 8 + den) div (2 * den)"
  have K: "scaledNearest m e 8 = K" by (simp add: scaledNearest_def md K_def)
  have d2: "0 < 2 * den" using den by simp
  have br: "2 * den * K \<le> 2 * num * 10 ^ 8 + den"
    using div_bracket(1) [OF d2, of "2 * num * 10 ^ 8 + den"] by (simp add: K_def)
  have "0 \<le> 2 * num * 10 ^ 8 + den" using num den by simp
  then have "0 \<le> K" unfolding K_def using d2 by (simp add: pos_imp_zdiv_nonneg_iff)
  then show "0 \<le> scaledNearest m e 8" by (simp add: K)
  have "2 * num * 10 ^ 8 + den < den * (2 * 10 ^ 29 + 1)" using lt by (simp add: algebra_simps)
  with br have "den * (2 * K) < den * (2 * 10 ^ 29 + 1)" by (simp add: algebra_simps)
  then have "2 * K < 2 * 10 ^ 29 + 1" using den by (simp only: mult_less_cancel_left_pos)
  then show "scaledNearest m e 8 < 10 ^ 30" by (simp add: K)
qed

lemma takeWhile_zeros:
  "\<not> isZeroChar d \<Longrightarrow>
     takeWhile isZeroChar (replicate n (CHR ''0'') @ d # rest) = replicate n (CHR ''0'')"
  by (induction n) (simp_all add: isZeroChar_def)

text \<open>
  Rounding a finite number below \<open>10^21\<close> to eight fraction digits, reading the text
  back, making the decimal of it and printing that.
\<close>

lemma encode_small:
  assumes small: "\<not> atLeast1e21 m e"
  defines "K \<equiv> scaledNearest m e 8"
  shows "parseFloat (toFixed (Fin m e) 8) = decimalToNumber (m < 0) K (- 8)"
    and "toFixed (Fin m e) 8 \<noteq> ''-0''"
    and "\<exists>e3 ds. Decimal_new (toFixed (Fin m e) 8) = Inr (DFinite (m < 0) e3 ds)
           \<and> list_all isDigit ds \<and> ds \<noteq> []
           \<and> (if K = 0 then ds = ''0'' \<and> e3 = 0
               else hd ds \<noteq> CHR ''0'' \<and> last ds \<noteq> CHR ''0'' \<and> e3 = int (length (digits K)) - 9)
           \<and> (of_int (digitsVal ds) :: rat) * pow10 (e3 + 1 - int (length ds)) = of_int K * pow10 (- 8)
           \<and> parseFloat (Decimal_toString (DFinite (m < 0) e3 ds)) =
               decimalToNumber (m < 0 \<and> K \<noteq> 0) K (- 8)"
proof -
  have Knn: "0 \<le> K" and Kub: "K < 10 ^ 30"
    using scaledNearest_bounds [OF small] by (simp_all add: K_def)
  obtain ip fp where fd: "fixedDigits K 8 = ip @ CHR ''.'' # fp"
    and ip: "list_all isDigit ip" "ip \<noteq> []" and fp: "list_all isDigit fp" "length fp = 8"
    and v: "digitsVal (ip @ fp) = K"
    and whole: "ip @ fp = replicate (9 - length (digits K)) (CHR ''0'') @ digits K"
    using fixedDigits_form [OF Knn] by blast
  define sg where "sg = (if m < 0 then ''-'' else [])"
  have tf: "toFixed (Fin m e) 8 = sg @ ip @ (if True then CHR ''.'' # fp else []) @ []"
    using small by (simp add: toFixed_def Let_def K_def [symmetric] fd sg_def)
  have L: "length (digits K) \<le> 30" using Knn Kub by (rule digits_length_le) simp
  have lw: "length (ip @ fp) \<le> 30"
    by (subst whole) (use L in simp)
  have ex: "([]::string) = [] \<or> (([]::string) = ''e+'' @ digits 0 \<and> (0::int) \<le> 0)" by simp
  have ub: "int (length ip) + (if ([]::string) = [] then 0 else 0) \<le> 9 * 10 ^ 15"
    using lw by simp
  have lb: "int (length (ip @ fp)) < 9 * 10 ^ 15" using lw by simp
  have nodot: "True \<or> fp = []" by simp
  note chain = numeral_through_decimal [where neg = "m < 0" and hasDot = True and ex = "[]" and E = 0,
      OF ip fp(1) nodot ex ub lb]
  show "parseFloat (toFixed (Fin m e) 8) = decimalToNumber (m < 0) K (- 8)"
    using chain(1) by (simp add: tf sg_def v fp(2))
  show "toFixed (Fin m e) 8 \<noteq> ''-0''"
  proof
    assume a: "toFixed (Fin m e) 8 = ''-0''"
    have "CHR ''.'' \<in> set (toFixed (Fin m e) 8)" by (simp add: tf)
    then show False unfolding a by simp
  qed
  obtain e3 ds where dn: "Decimal_new (toFixed (Fin m e) 8) = Inr (DFinite (m < 0) e3 ds)"
    and dsd: "list_all isDigit ds" "ds \<noteq> []"
    and shape: "if K = 0 then ds = ''0'' \<and> e3 = 0
               else hd ds \<noteq> CHR ''0'' \<and> last ds \<noteq> CHR ''0'' \<and>
                    e3 = int (length ip) - int (length (takeWhile isZeroChar (ip @ fp))) - 1"
    and val: "(of_int (digitsVal ds) :: rat) * pow10 (e3 + 1 - int (length ds)) = of_int K * pow10 (- 8)"
    and rt: "parseFloat (Decimal_toString (DFinite (m < 0) e3 ds)) =
               decimalToNumber (m < 0 \<and> K \<noteq> 0) K (- 8)"
    using chain(2) by (auto simp: tf sg_def v fp(2))
  have e3: "K \<noteq> 0 \<Longrightarrow> int (length ip) - int (length (takeWhile isZeroChar (ip @ fp))) - 1
              = int (length (digits K)) - 9"
  proof -
    assume "K \<noteq> 0"
    with Knn have Kpos: "0 < K" by simp
    obtain d0 ds0 where dk: "digits K = d0 # ds0" using digits_nonempty [of K] by (cases "digits K") auto
    have "hd (digits K) \<noteq> CHR ''0''" using Kpos by (rule hd_digits_nonzero)
    then have d0: "\<not> isZeroChar d0" by (simp add: dk isZeroChar_def)
    have "takeWhile isZeroChar (ip @ fp) = replicate (9 - length (digits K)) (CHR ''0'')"
      unfolding whole dk using d0 by (rule takeWhile_zeros)
    then have lz: "length (takeWhile isZeroChar (ip @ fp)) = 9 - length (digits K)" by simp
    have "length (ip @ fp) = (9 - length (digits K)) + length (digits K)" by (subst whole) simp
    then have "int (length ip) = int (9 - length (digits K)) + int (length (digits K)) - 8"
      using fp(2) by simp
    then show ?thesis unfolding lz by simp
  qed
  have shape': "if K = 0 then ds = ''0'' \<and> e3 = 0
               else hd ds \<noteq> CHR ''0'' \<and> last ds \<noteq> CHR ''0'' \<and> e3 = int (length (digits K)) - 9"
    using shape e3 by (cases "K = 0") simp_all
  from dn dsd shape' val rt
  show "\<exists>e3 ds. Decimal_new (toFixed (Fin m e) 8) = Inr (DFinite (m < 0) e3 ds)
           \<and> list_all isDigit ds \<and> ds \<noteq> []
           \<and> (if K = 0 then ds = ''0'' \<and> e3 = 0
               else hd ds \<noteq> CHR ''0'' \<and> last ds \<noteq> CHR ''0'' \<and> e3 = int (length (digits K)) - 9)
           \<and> (of_int (digitsVal ds) :: rat) * pow10 (e3 + 1 - int (length ds)) = of_int K * pow10 (- 8)
           \<and> parseFloat (Decimal_toString (DFinite (m < 0) e3 ds)) =
               decimalToNumber (m < 0 \<and> K \<noteq> 0) K (- 8)"
    by blast
qed

section \<open>The shortest digits of a large number\<close>

lemma roundToDouble_negate:
  "roundToDouble True num den = negate (roundToDouble False num den)"
  by (simp add: roundToDouble_def Let_def)

lemma decimalToNumber_negate:
  "decimalToNumber True cf k = negate (decimalToNumber False cf k)"
  by (simp add: decimalToNumber_def roundToDouble_negate)

lemma digitCandidate_props:
  assumes "digitCandidate A m e scale = Some sv"
  shows "roundsTo (sv * scale) m e" "sv = A div scale \<or> sv = A div scale + 1"
  using assms by (auto simp: digitCandidate_def Let_def split: if_splits)

lemma shortestDigits_props:
  assumes "roundsTo A m e" "shortestDigits A m e j = (sv, j')"
  shows "roundsTo (sv * 10 ^ j') m e \<and> j' \<le> j \<and> (sv = A \<or> (\<exists>k. 0 < k \<and> (sv = A div 10 ^ k \<or> sv = A div 10 ^ k + 1)))"
  using assms
proof (induction j)
  case 0
  then show ?case by simp
next
  case (Suc j)
  show ?case
  proof (cases "digitCandidate A m e (10 ^ Suc j)")
    case None
    with Suc.prems have "shortestDigits A m e j = (sv, j')" by simp
    with Suc.IH [OF Suc.prems(1)] show ?thesis by auto
  next
    case (Some sv0)
    with Suc.prems have eq: "sv = sv0" "j' = Suc j" by simp_all
    from digitCandidate_props [OF Some] eq show ?thesis by auto
  qed
qed

lemma shortestDigits_scale:
  assumes "shortestDigits A m e j = (sv, j')"
  shows "A div 10 ^ j' \<le> sv"
  using assms
proof (induction j)
  case 0
  then show ?case by simp
next
  case (Suc j)
  show ?case
  proof (cases "digitCandidate A m e (10 ^ Suc j)")
    case None
    with Suc.prems have "shortestDigits A m e j = (sv, j')" by simp
    then show ?thesis by (rule Suc.IH)
  next
    case (Some sv0)
    with Suc.prems have eq: "sv = sv0" "j' = Suc j" by simp_all
    from digitCandidate_props(2) [OF Some] eq show ?thesis by auto
  qed
qed

lemma roundsTo_positive:
  assumes "roundsTo v m e" "0 \<le> v"
  shows "0 < v"
proof (rule ccontr)
  assume "\<not> 0 < v"
  with assms(2) have "v = 0" by simp
  with assms(1) show False by (simp add: roundsTo_def roundToDouble_def)
qed

text \<open>A number of at least \<open>10^21\<close> is an integer below \<open>2^1024\<close>.\<close>

lemma large_props:
  assumes wf: "isNumber (Fin m e)" and big: "atLeast1e21 m e"
  shows "0 \<le> e" "10 ^ 21 \<le> \<bar>m\<bar> * 2 ^ nat e" "\<bar>m\<bar> * 2 ^ nat e < 2 ^ 1024"
    "roundsTo (\<bar>m\<bar> * 2 ^ nat e) \<bar>m\<bar> e"
proof -
  from wf have mlt: "\<bar>m\<bar> < 2 ^ 53" and eu: "e \<le> 971" and mnz: "m \<noteq> 0"
    by (simp_all add: isNumber_def)
  show e0: "0 \<le> e"
  proof (rule ccontr)
    assume "\<not> 0 \<le> e"
    with big have a1: "10 ^ 21 * 2 ^ nat (- e) \<le> \<bar>m\<bar>" by (simp add: atLeast1e21_def magnitude_def)
    have "(1::int) \<le> 2 ^ nat (- e)" by simp
    then have a2: "(10::int) ^ 21 * 1 \<le> 10 ^ 21 * 2 ^ nat (- e)" by (intro mult_left_mono) simp_all
    from a1 a2 have "10 ^ 21 \<le> \<bar>m\<bar>" by linarith
    with mlt show False by simp
  qed
  show "10 ^ 21 \<le> \<bar>m\<bar> * 2 ^ nat e" using big e0 by (simp add: atLeast1e21_def magnitude_def)
  have "(2::int) ^ nat e \<le> 2 ^ 971" using eu e0 by (intro power_increasing) simp_all
  then have "\<bar>m\<bar> * 2 ^ nat e \<le> \<bar>m\<bar> * 2 ^ 971" by (intro mult_left_mono) simp_all
  also have "\<dots> < 2 ^ 53 * 2 ^ 971" using mlt by (intro mult_strict_right_mono) simp_all
  also have "\<dots> = (2::int) ^ 1024" by simp
  finally show "\<bar>m\<bar> * 2 ^ nat e < 2 ^ 1024" .
  have wf': "isNumber (Fin \<bar>m\<bar> e)" using wf by (simp add: isNumber_def)
  have "roundToDouble False (\<bar>m\<bar> * 2 ^ nat e) 1 = Fin (if False then - \<bar>m\<bar> else \<bar>m\<bar>) e"
    using mnz e0 wf' by (intro roundToDouble_exact) (simp_all add: pow2_def)
  then show "roundsTo (\<bar>m\<bar> * 2 ^ nat e) \<bar>m\<bar> e" by (simp add: roundsTo_def)
qed

section \<open>Encoding numbers of at least 10^21\<close>

lemma pow2_1024_bound: "(2::int) ^ 1024 < 10 ^ 309"
  by simp

text \<open>
  Printing a finite number of at least \<open>10^21\<close>, reading the text back, making the
  decimal of it and printing that.
\<close>

lemma encode_large:
  assumes wf: "isNumber (Fin m e)" and big: "atLeast1e21 m e"
  shows "parseFloat (toFixed (Fin m e) 8) = Fin m e"
    and "toFixed (Fin m e) 8 \<noteq> ''-0''"
    and "\<exists>e3 ds. Decimal_new (toFixed (Fin m e) 8) = Inr (DFinite (m < 0) e3 ds)
           \<and> list_all isDigit ds \<and> ds \<noteq> [] \<and> hd ds \<noteq> CHR ''0'' \<and> 21 \<le> e3
           \<and> parseFloat (Decimal_toString (DFinite (m < 0) e3 ds)) = Fin m e"
proof -
  define M where "M = \<bar>m\<bar>"
  define A where "A = M * 2 ^ nat e"
  define nd where "nd = length (digits A)"
  define res where "res = (if roundsTo (10 ^ nd) M e then (1, nd) else shortestDigits A M e (nd - 1))"
  obtain sv j where res: "res = (sv, j)" by (cases res)
  define ds where "ds = digits sv"
  define n1 where "n1 = int (length ds) + int j - 1"
  have e0: "0 \<le> e" and A21: "10 ^ 21 \<le> A" and Aub: "A < 2 ^ 1024" and rA: "roundsTo A M e"
    using large_props [OF wf big] by (simp_all add: A_def M_def)
  have Apos: "0 < A" using A21 by simp
  have mnz: "m \<noteq> 0" using wf by (simp add: isNumber_def)
  have Alt: "A < 10 ^ nd" unfolding nd_def using digits_length_bounds [of A] Apos by simp
  have sc: "A div 10 ^ j \<le> sv"
  proof (cases "roundsTo (10 ^ nd) M e")
    case True
    with res have "sv = 1" "j = nd" by (simp_all add: res_def)
    moreover have "A div 10 ^ nd = 0" using Apos Alt by (simp add: div_pos_pos_trivial)
    ultimately show ?thesis by simp
  next
    case False
    with res have "shortestDigits A M e (nd - 1) = (sv, j)" by (simp add: res_def)
    then show ?thesis by (rule shortestDigits_scale)
  qed
  have sp: "roundsTo (sv * 10 ^ j) M e \<and> j \<le> nd \<and> 0 \<le> sv \<and> sv \<le> A + 1"
  proof (cases "roundsTo (10 ^ nd) M e")
    case True
    with res have "sv = 1" "j = nd" by (simp_all add: res_def)
    with True Apos show ?thesis by simp
  next
    case False
    with res have sd: "shortestDigits A M e (nd - 1) = (sv, j)" by (simp add: res_def)
    note pr = shortestDigits_props [OF rA sd]
    have dv: "0 \<le> A div 10 ^ k \<and> A div 10 ^ k \<le> A" for k :: nat
    proof -
      have "0 \<le> A div 10 ^ k" using Apos by (simp add: pos_imp_zdiv_nonneg_iff)
      moreover have "A div 10 ^ k \<le> A" using Apos by (rule int_div_le_self)
      ultimately show ?thesis by simp
    qed
    from pr have "sv = A \<or> (\<exists>k. 0 < k \<and> (sv = A div 10 ^ k \<or> sv = A div 10 ^ k + 1))" by simp
    then have "0 \<le> sv \<and> sv \<le> A + 1"
    proof (elim disjE exE conjE)
      assume "sv = A"
      with Apos show ?thesis by simp
    next
      fix k assume "sv = A div 10 ^ k"
      with dv [of k] show ?thesis by simp
    next
      fix k assume "sv = A div 10 ^ k + 1"
      with dv [of k] show ?thesis by simp
    qed
    moreover have "j \<le> nd" using pr by linarith
    ultimately show ?thesis using pr by simp
  qed
  have "0 \<le> sv * 10 ^ j" using sp by simp
  with sp have "0 < sv * 10 ^ j" by (intro roundsTo_positive [of _ M e]) simp_all
  then have svpos: "0 < sv" by (simp add: zero_less_mult_iff)
  have svnn: "0 \<le> sv" using svpos by simp
  have dsd: "list_all isDigit ds" "ds \<noteq> []" "digitsVal ds = sv"
    using digits_all_digits [OF svnn] digitsVal_digits [OF svnn] by (simp_all add: ds_def)
  have sv309: "sv < 10 ^ 309" using sp Aub pow2_1024_bound by linarith
  have A309: "A < 10 ^ 309" using Aub pow2_1024_bound by linarith
  have lds: "length ds \<le> 309" unfolding ds_def using svnn sv309 by (rule digits_length_le) simp
  have lnd: "nd \<le> 309" unfolding nd_def using A309 Apos by (intro digits_length_le) simp_all
  have jle: "j \<le> 309" using sp lnd by simp
  obtain d0 ds0 where dc: "ds = d0 # ds0" using dsd(2) by (cases ds) auto
  have n1nn: "0 \<le> n1" by (simp add: n1_def dc)
  have n21: "21 \<le> n1"
  proof -
    have p10: "(0::int) < 10 ^ j" by simp
    have "A < 10 ^ j * (A div 10 ^ j) + 10 ^ j" using p10 by (rule div_bracket(2))
    also have "\<dots> = (A div 10 ^ j + 1) * 10 ^ j" by (simp add: algebra_simps)
    also have "\<dots> \<le> (sv + 1) * 10 ^ j" using sc by (intro mult_right_mono) simp_all
    also have "\<dots> \<le> 10 ^ length ds * 10 ^ j"
      using digits_length_bounds [OF svnn] by (intro mult_right_mono) (simp_all add: ds_def)
    also have "\<dots> = 10 ^ (length ds + j)" by (simp add: power_add)
    finally have "(10::int) ^ 21 < 10 ^ (length ds + j)" using A21 by linarith
    then have "21 < length ds + j" by (simp only: power_strict_increasing_iff)
    then show ?thesis by (simp add: n1_def)
  qed
  have nolead: "takeWhile isZeroChar ds = []"
    using hd_digits_nonzero [OF svpos] by (simp add: ds_def [symmetric] dc isZeroChar_def)
  define ip where "ip = take 1 ds"
  define fp where "fp = drop 1 ds"
  define hasDot where "hasDot = (length ds \<noteq> 1)"
  define ex where "ex = ''e+'' @ digits n1"
  define sg where "sg = (if m < 0 then ''-'' else [])"
  have ipfp: "ip @ fp = ds" by (simp add: ip_def fp_def)
  have ipd: "list_all isDigit ip" "ip \<noteq> []" and fpd: "list_all isDigit fp"
    using dsd(1) by (simp_all add: ip_def fp_def dc)
  have nodot: "hasDot \<or> fp = []" by (auto simp: hasDot_def fp_def dc)
  have exf: "ex = [] \<or> (ex = ''e+'' @ digits n1 \<and> 0 \<le> n1)" using n1nn by (simp add: ex_def)
  have exne: "ex \<noteq> []" by (simp add: ex_def)
  have tsl: "toStringLarge M e = ip @ (if hasDot then CHR ''.'' # fp else []) @ ex"
    unfolding toStringLarge_def Let_def A_def [symmetric] nd_def [symmetric] res_def [symmetric] res
    by (simp add: ds_def [symmetric] ip_def fp_def hasDot_def ex_def n1_def dc)
  have tf: "toFixed (Fin m e) 8 = sg @ ip @ (if hasDot then CHR ''.'' # fp else []) @ ex"
    using big by (simp add: toFixed_def Let_def M_def [symmetric] tsl sg_def)
  have ub: "int (length ip) + (if ex = [] then 0 else n1) \<le> 9 * 10 ^ 15"
    using lds jle by (simp add: ip_def n1_def exne)
  have lb: "int (length (ip @ fp)) < 9 * 10 ^ 15" using lds by (simp add: ipfp)
  note chain = numeral_through_decimal [where neg = "m < 0" and hasDot = hasDot and ex = ex and E = n1,
      OF ipd fpd nodot exf ub lb]
  have expo: "(if ex = [] then 0 else n1) - int (length fp) = int j"
    by (simp add: exne n1_def fp_def dc)
  have pos: "decimalToNumber False sv (int j) = Fin M e"
    using sp by (simp add: decimalToNumber_def roundsTo_def)
  have num: "decimalToNumber (m < 0) sv (int j) = Fin m e"
  proof (cases "m < 0")
    case True
    then show ?thesis using pos by (simp add: decimalToNumber_negate M_def)
  next
    case False
    then show ?thesis using pos by (simp add: M_def)
  qed
  show "parseFloat (toFixed (Fin m e) 8) = Fin m e"
    using chain(1) by (simp only: tf sg_def ipfp dsd(3) expo num)
  show "toFixed (Fin m e) 8 \<noteq> ''-0''"
  proof
    assume a0: "toFixed (Fin m e) 8 = ''-0''"
    have "CHR ''e'' \<in> set (toFixed (Fin m e) 8)" by (simp add: tf ex_def)
    then show False unfolding a0 by simp
  qed
  obtain e3 ds' where dn: "Decimal_new (toFixed (Fin m e) 8) = Inr (DFinite (m < 0) e3 ds')"
    and dsd': "list_all isDigit ds'" "ds' \<noteq> []"
    and shape: "if sv = 0 then ds' = ''0'' \<and> e3 = 0
               else hd ds' \<noteq> CHR ''0'' \<and> last ds' \<noteq> CHR ''0'' \<and>
                    e3 = int (length ip) + (if ex = [] then 0 else n1)
                         - int (length (takeWhile isZeroChar ds)) - 1"
    and rt: "parseFloat (Decimal_toString (DFinite (m < 0) e3 ds')) =
               decimalToNumber (m < 0 \<and> sv \<noteq> 0) sv (int j)"
    using chain(2) unfolding tf [symmetric, unfolded sg_def] ipfp dsd(3) expo by blast
  have "hd ds' \<noteq> CHR ''0''" using shape svpos by simp
  moreover have "21 \<le> e3" using shape svpos n21 unfolding nolead by (simp add: exne ip_def dc)
  moreover have "parseFloat (Decimal_toString (DFinite (m < 0) e3 ds')) = Fin m e"
    using rt svpos num by simp
  ultimately show "\<exists>e3 ds. Decimal_new (toFixed (Fin m e) 8) = Inr (DFinite (m < 0) e3 ds)
           \<and> list_all isDigit ds \<and> ds \<noteq> [] \<and> hd ds \<noteq> CHR ''0'' \<and> 21 \<le> e3
           \<and> parseFloat (Decimal_toString (DFinite (m < 0) e3 ds)) = Fin m e"
    using dn dsd' by blast
qed

section \<open>The canonical decimal encoder: properties\<close>

lemma tolerance_value: "tolerance = Fin 4951760157141521 (- 92)"
  by code_simp

lemma floatToWire_special:
  "floatToWire NaN = Inr ''NaN''" "floatToWire PosInf = Inr ''Infinity''"
  "floatToWire NegInf = Inr ''-Infinity''" "floatToWire PosZero = Inr ''0''"
  "floatToWire NegZero = Inr ''0''"
  by code_simp+

lemma parseFloat_zero_text: "parseFloat ''0'' = PosZero"
  by code_simp

lemma not_ge_tolerance_zero: "\<not> numberGe (mathAbs (numberSub (Fin m e) (Fin m e))) tolerance"
  by (simp add: subFinite_def tolerance_value finiteGe_def)

text \<open>
  Whatever the encoder returns for a finite non-zero number comes from the decimal of
  the rounded text.
\<close>

lemma floatToWire_Fin:
  assumes wf: "isNumber (Fin m e)"
  shows "\<exists>e3 ds. Decimal_new (toFixed (Fin m e) 8) = Inr (DFinite (m < 0) e3 ds)
           \<and> list_all isDigit ds \<and> ds \<noteq> [] \<and> (ds = ''0'' \<or> hd ds \<noteq> CHR ''0'')
           \<and> floatToWire (Fin m e) =
               (if numberGe (mathAbs (numberSub (parseFloat (toFixed (Fin m e) 8)) (Fin m e))) tolerance
                then Inl (Error ''floatToWire causes rounding'')
                else Inr (Decimal_toString (DFinite (m < 0) e3 ds)))"
proof -
  have "toFixed (Fin m e) 8 \<noteq> ''-0''
        \<and> (\<exists>e3 ds. Decimal_new (toFixed (Fin m e) 8) = Inr (DFinite (m < 0) e3 ds)
              \<and> list_all isDigit ds \<and> ds \<noteq> [] \<and> (ds = ''0'' \<or> hd ds \<noteq> CHR ''0''))"
  proof (cases "atLeast1e21 m e")
    case True
    from encode_large(2,3) [OF wf True] show ?thesis by blast
  next
    case False
    obtain e3 ds where "Decimal_new (toFixed (Fin m e) 8) = Inr (DFinite (m < 0) e3 ds)"
      "list_all isDigit ds" "ds \<noteq> []"
      "if scaledNearest m e 8 = 0 then ds = ''0'' \<and> e3 = 0
       else hd ds \<noteq> CHR ''0'' \<and> last ds \<noteq> CHR ''0'' \<and> e3 = int (length (digits (scaledNearest m e 8))) - 9"
      using encode_small(3) [OF False] by blast
    moreover from this have "ds = ''0'' \<or> hd ds \<noteq> CHR ''0''"
      by (cases "scaledNearest m e 8 = 0") simp_all
    ultimately show ?thesis using encode_small(2) [OF False] by blast
  qed
  then obtain e3 ds where n0: "toFixed (Fin m e) 8 \<noteq> ''-0''"
    and dn: "Decimal_new (toFixed (Fin m e) 8) = Inr (DFinite (m < 0) e3 ds)"
    and dsd: "list_all isDigit ds" "ds \<noteq> []" "ds = ''0'' \<or> hd ds \<noteq> CHR ''0''" by blast
  have "floatToWire (Fin m e) =
               (if numberGe (mathAbs (numberSub (parseFloat (toFixed (Fin m e) 8)) (Fin m e))) tolerance
                then Inl (Error ''floatToWire causes rounding'')
                else Inr (Decimal_toString (DFinite (m < 0) e3 ds)))"
    using n0 by (simp add: floatToWire_def Let_def dn)
  with dn dsd show ?thesis by blast
qed

lemma exact_units:
  assumes md: "magnitude m e = (num, den)" and fd: "(num * 10 ^ 8) mod den = 0"
  shows "(of_int (scaledNearest m e 8) :: rat) * pow10 (- 8) = of_int \<bar>m\<bar> * pow2 e"
proof -
  have den: "0 < den" and val: "(of_int num :: rat) / of_int den = of_int \<bar>m\<bar> * pow2 e"
    using magnitude_props [OF md] by simp_all
  define K' where "K' = num * 10 ^ 8 div den"
  have nk: "num * 10 ^ 8 = den * K'"
    using fd mult_div_mod_eq [of den "num * 10 ^ 8"] by (simp add: K'_def)
  have "2 * num * 10 ^ 8 + den = den * (2 * K' + 1)"
    using nk by (simp add: algebra_simps)
  then have "(2 * num * 10 ^ 8 + den) div (2 * den) = (den * (2 * K' + 1)) div (den * 2)"
    by (simp add: mult.commute)
  also have "\<dots> = (2 * K' + 1) div 2" using den by (simp only: div_mult_mult1)
  also have "\<dots> = K'" by simp
  finally have K: "scaledNearest m e 8 = K'" by (simp add: scaledNearest_def md)
  have "(of_int (num * 10 ^ 8) :: rat) = of_int (den * K')" using nk by simp
  then have "(of_int K' :: rat) = of_int num * 10 ^ 8 / of_int den"
    using den by (simp add: field_simps)
  then have "(of_int K' :: rat) * pow10 (- 8) = of_int num / of_int den"
    by (simp add: pow10_def)
  with val K show ?thesis by simp
qed

section \<open>The text of a decimal\<close>

lemma digitsVal_pos:
  assumes "list_all isDigit ds" "ds \<noteq> []" "hd ds \<noteq> CHR ''0''"
  shows "0 < digitsVal ds"
proof -
  have "hd ds \<in> set ds" using assms(2) by simp
  with assms(3) have "\<not> (\<forall>ch \<in> set ds. ch = CHR ''0'')" by blast
  then have "digitsVal ds \<noteq> 0" using digitsVal_zero_iff [OF assms(1)] by simp
  with digitsVal_nonneg [OF assms(1)] show ?thesis by simp
qed

lemma toString_split:
  assumes ds: "list_all isDigit ds" "ds \<noteq> []"
  shows "\<exists>d rest. finiteToString e ds (e \<le> - 7 \<or> 21 \<le> e) = d # rest \<and> isDigit d
           \<and> Decimal_toString (DFinite neg e ds) =
               (if neg \<and> ds \<noteq> ''0'' then CHR ''-'' # d # rest else d # rest)"
proof -
  obtain d rest where st: "finiteToString e ds (e \<le> - 7 \<or> 21 \<le> e) = d # rest" "isDigit d"
    using finiteToString_start [where e = e and isExp = "e \<le> - 7 \<or> 21 \<le> e", OF ds] by blast
  then show ?thesis by (simp add: Decimal_toString_def Let_def)
qed

text \<open>The text printed for a decimal is never a negative zero.\<close>

lemma toString_not_negative_zero:
  assumes ds: "list_all isDigit ds" "ds \<noteq> []" and nz: "ds = ''0'' \<or> hd ds \<noteq> CHR ''0''"
  shows "\<not> negativeZeroText (Decimal_toString (DFinite neg e ds))"
proof -
  obtain d rest where st: "finiteToString e ds (e \<le> - 7 \<or> 21 \<le> e) = d # rest" "isDigit d"
    and ts: "Decimal_toString (DFinite neg e ds) =
               (if neg \<and> ds \<noteq> ''0'' then CHR ''-'' # d # rest else d # rest)"
    using toString_split [OF ds] by blast
  have dm: "d \<noteq> CHR ''-''" using isDigit_not_mark [OF st(2)] by simp
  show ?thesis
  proof (cases "neg \<and> ds \<noteq> ''0''")
    case False
    with ts dm show ?thesis by (simp add: negativeZeroText_def)
  next
    case True
    with nz have hd: "hd ds \<noteq> CHR ''0''" by simp
    have vpos: "0 < digitsVal ds" using ds hd by (rule digitsVal_pos)
    obtain cf k where pr: "strUnsignedDecimalLiteral (d # rest) = Some (MVFinite cf k)"
      and v: "(of_int cf :: rat) * pow10 k = of_int (digitsVal ds) * pow10 (e + 1 - int (length ds))"
      using parse_finiteToString [where e = e and isExp = "e \<le> - 7 \<or> 21 \<le> e", OF ds] st(1) by auto
    have "(0::rat) < of_int (digitsVal ds) * pow10 (e + 1 - int (length ds))"
      using vpos pow10_pos [of "e + 1 - int (length ds)"] by simp
    with v have "cf \<noteq> 0" by auto
    with ts True pr show ?thesis by (simp add: negativeZeroText_def)
  qed
qed


lemma toString_exponent_marker:
  assumes "e \<le> - 7 \<or> 21 \<le> e"
  shows "CHR ''e'' \<in> set (Decimal_toString (DFinite neg e ds))"
  using assms by (auto simp: Decimal_toString_def finiteToString_def Let_def)

section \<open>Plain numerals\<close>

lemma plain_partsI:
  assumes "fts = ip @ fr" "list_all isDigit ip" "ip \<noteq> []" "ip = ''0'' \<or> hd ip \<noteq> CHR ''0''"
    "fr = [] \<or> (\<exists>fp. fr = CHR ''.'' # fp \<and> fp \<noteq> [] \<and> list_all isDigit fp \<and> last fp \<noteq> CHR ''0'')"
    "ds \<noteq> ''0'' \<longrightarrow> ip @ fr \<noteq> ''0''"
  shows "\<exists>ip fr. fts = ip @ fr \<and> list_all isDigit ip \<and> ip \<noteq> []
           \<and> (ip = ''0'' \<or> hd ip \<noteq> CHR ''0'')
           \<and> (fr = [] \<or> (\<exists>fp. fr = CHR ''.'' # fp \<and> fp \<noteq> [] \<and> list_all isDigit fp \<and> last fp \<noteq> CHR ''0''))
           \<and> (ds \<noteq> ''0'' \<longrightarrow> ip @ fr \<noteq> ''0'')"
  using assms by blast

lemma plain_parts:
  assumes ds: "list_all isDigit ds" "ds \<noteq> []"
    and shape: "(ds = ''0'' \<and> e = 0) \<or> (hd ds \<noteq> CHR ''0'' \<and> last ds \<noteq> CHR ''0'')"
  shows "\<exists>ip fr. finiteToString e ds False = ip @ fr \<and> list_all isDigit ip \<and> ip \<noteq> []
           \<and> (ip = ''0'' \<or> hd ip \<noteq> CHR ''0'')
           \<and> (fr = [] \<or> (\<exists>fp. fr = CHR ''.'' # fp \<and> fp \<noteq> [] \<and> list_all isDigit fp \<and> last fp \<noteq> CHR ''0''))
           \<and> (ds \<noteq> ''0'' \<longrightarrow> ip @ fr \<noteq> ''0'')"
proof (cases "ds = ''0'' \<and> e = 0")
  case True
  then have "finiteToString e ds False = ''0'' @ []" by (simp add: finiteToString_def)
  then show ?thesis by (rule plain_partsI) (use True in simp_all)
next
  case False
  with shape have hd: "hd ds \<noteq> CHR ''0''" and la: "last ds \<noteq> CHR ''0''" by auto
  define len where "len = int (length ds)"
  have lenpos: "0 < len" using ds(2) by (simp add: len_def)
  consider (neg) "e < 0" | (long) "0 \<le> e" "len \<le> e" | (mid) "0 \<le> e" "e + 1 < len"
    | (full) "0 \<le> e" "e + 1 = len"
    by linarith
  then show ?thesis
  proof cases
    case neg
    define fp where "fp = replicate (nat (- e - 1)) (CHR ''0'') @ ds"
    have f: "finiteToString e ds False = ''0'' @ CHR ''.'' # fp"
      using neg by (simp add: finiteToString_def fp_def)
    have "fp \<noteq> []" "list_all isDigit fp" "last fp \<noteq> CHR ''0''"
      using ds la by (simp_all add: fp_def)
    then show ?thesis by (intro plain_partsI [OF f]) simp_all
  next
    case long
    define ip where "ip = ds @ replicate (nat (e + 1 - len)) (CHR ''0'')"
    have f: "finiteToString e ds False = ip @ []"
      using long lenpos by (simp add: finiteToString_def ip_def len_def)
    have "list_all isDigit ip" "ip \<noteq> []" "hd ip \<noteq> CHR ''0''"
      using ds hd by (simp_all add: ip_def)
    moreover from this have "ip \<noteq> ''0''" by auto
    ultimately show ?thesis by (intro plain_partsI [OF f]) simp_all
  next
    case mid
    define j where "j = nat (e + 1)"
    have jb: "0 < j" "j < length ds" using mid by (simp_all add: j_def len_def)
    have f: "finiteToString e ds False = take j ds @ CHR ''.'' # drop j ds"
      using mid by (simp add: finiteToString_def j_def len_def)
    have "list_all isDigit (take j ds)" "list_all isDigit (drop j ds)"
      using list_all_take_drop [OF ds(1), of j] by simp_all
    moreover have "take j ds \<noteq> []" "drop j ds \<noteq> []" using jb ds(2) by simp_all
    moreover have "hd (take j ds) \<noteq> CHR ''0''" using jb hd by simp
    moreover have "last (drop j ds) \<noteq> CHR ''0''" using jb la by simp
    moreover have "take j ds @ CHR ''.'' # drop j ds \<noteq> ''0''"
    proof
      assume "take j ds @ CHR ''.'' # drop j ds = ''0''"
      then have "length (take j ds @ CHR ''.'' # drop j ds) = length ''0''" by simp
      then show False using jb by simp
    qed
    ultimately show ?thesis by (intro plain_partsI [OF f]) simp_all
  next
    case full
    have f: "finiteToString e ds False = ds @ []"
      using full by (simp add: finiteToString_def len_def)
    have "ds \<noteq> ''0''" using hd by auto
    then show ?thesis using ds hd by (intro plain_partsI [OF f]) simp_all
  qed
qed

text \<open>Between \<open>10^-6\<close> and \<open>10^21\<close> a decimal is printed as a plain numeral.\<close>

lemma plain_toString:
  assumes ds: "list_all isDigit ds" "ds \<noteq> []"
    and shape: "(ds = ''0'' \<and> e = 0) \<or> (hd ds \<noteq> CHR ''0'' \<and> last ds \<noteq> CHR ''0'')"
    and range: "- 7 < e" "e < 21"
  shows "isPlainDecimal (Decimal_toString (DFinite neg e ds))"
proof -
  obtain ip fr where f: "finiteToString e ds False = ip @ fr"
    and ip: "list_all isDigit ip" "ip \<noteq> []" "ip = ''0'' \<or> hd ip \<noteq> CHR ''0''"
    and fr: "fr = [] \<or> (\<exists>fp. fr = CHR ''.'' # fp \<and> fp \<noteq> [] \<and> list_all isDigit fp \<and> last fp \<noteq> CHR ''0'')"
    and nz: "ds \<noteq> ''0'' \<longrightarrow> ip @ fr \<noteq> ''0''"
    using plain_parts [OF ds shape] by blast
  have ne: "\<not> (e \<le> - 7 \<or> 21 \<le> e)" using range by simp
  have ts: "Decimal_toString (DFinite neg e ds) =
            (if neg \<and> ds \<noteq> ''0'' then CHR ''-'' # ip @ fr else ip @ fr)"
    using ne by (simp add: Decimal_toString_def Let_def f)
  obtain d0 ip0 where ipc: "ip = d0 # ip0" "isDigit d0" using ip by (cases ip) auto
  have dm: "d0 \<noteq> CHR ''-''" using isDigit_not_mark [OF ipc(2)] by simp
  have nd: "fr = [] \<or> \<not> isDigit (hd fr)" using fr by auto
  have tw: "takeWhile isDigit (ip @ fr) = ip" "dropWhile isDigit (ip @ fr) = fr"
    using takeWhile_digits_append [OF ip(1) nd] by simp_all
  have frc: "(case fr of [] \<Rightarrow> True
             | ch # fp \<Rightarrow> ch = CHR ''.'' \<and> fp \<noteq> [] \<and> list_all isDigit fp \<and> last fp \<noteq> CHR ''0'')"
    using fr by auto
  have body: "(case Decimal_toString (DFinite neg e ds) of [] \<Rightarrow> []
               | ch # rest \<Rightarrow> if ch = CHR ''-'' then rest else Decimal_toString (DFinite neg e ds))
              = ip @ fr"
    using dm by (simp add: ts ipc)
  have neq: "Decimal_toString (DFinite neg e ds) \<noteq> ''-0''"
  proof (cases "neg \<and> ds \<noteq> ''0''")
    case True
    then have "ip @ fr \<noteq> ''0''" using nz by simp
    then show ?thesis unfolding ts using True by simp
  next
    case False
    then have "Decimal_toString (DFinite neg e ds) = ip @ fr" by (simp only: ts if_False)
    then show ?thesis using dm by (simp add: ipc)
  qed
  show ?thesis
    unfolding isPlainDecimal_def Let_def body tw using ip frc neq by simp
qed

section \<open>What the encoder returns below 10^21\<close>

text \<open>
  What the encoder returns for a finite number below \<open>10^21\<close>: the text of the decimal
  whose value is the rounded number, \<open>K / 10^8\<close>, and whose exponent is the number of
  digits of \<open>K\<close> less 9.
\<close>

lemma floatToWire_small:
  assumes small: "\<not> atLeast1e21 m e" and out: "floatToWire (Fin m e) = Inr str"
  defines "K \<equiv> scaledNearest m e 8"
  shows "\<exists>e3 ds. str = Decimal_toString (DFinite (m < 0) e3 ds)
           \<and> list_all isDigit ds \<and> ds \<noteq> []
           \<and> (if K = 0 then ds = ''0'' \<and> e3 = 0
               else hd ds \<noteq> CHR ''0'' \<and> last ds \<noteq> CHR ''0'' \<and> e3 = int (length (digits K)) - 9)
           \<and> (of_int (digitsVal ds) :: rat) * pow10 (e3 + 1 - int (length ds)) = of_int K * pow10 (- 8)"
proof -
  obtain e3 ds where dn: "Decimal_new (toFixed (Fin m e) 8) = Inr (DFinite (m < 0) e3 ds)"
    and dsd: "list_all isDigit ds" "ds \<noteq> []"
    and shape: "if K = 0 then ds = ''0'' \<and> e3 = 0
               else hd ds \<noteq> CHR ''0'' \<and> last ds \<noteq> CHR ''0'' \<and> e3 = int (length (digits K)) - 9"
    and val: "(of_int (digitsVal ds) :: rat) * pow10 (e3 + 1 - int (length ds)) = of_int K * pow10 (- 8)"
    using encode_small(3) [OF small] unfolding K_def by blast
  have "str = Decimal_toString (DFinite (m < 0) e3 ds)"
    using out encode_small(2) [OF small]
    by (simp add: floatToWire_def Let_def dn split: if_splits)
  with dsd shape val show ?thesis by blast
qed

lemma plain_no_exponent_marker:
  assumes "isPlainDecimal str"
  shows "CHR ''e'' \<notin> set str"
proof -
  define body where "body = (case str of [] \<Rightarrow> [] | ch # rest \<Rightarrow> if ch = CHR ''-'' then rest else str)"
  define ip where "ip = takeWhile isDigit body"
  define fr where "fr = dropWhile isDigit body"
  have b: "body = ip @ fr" by (simp add: ip_def fr_def)
  have ipd: "list_all isDigit ip" by (auto simp: ip_def list_all_iff dest: set_takeWhileD)
  have frc: "case fr of [] \<Rightarrow> True
             | ch # fp \<Rightarrow> ch = CHR ''.'' \<and> fp \<noteq> [] \<and> list_all isDigit fp \<and> last fp \<noteq> CHR ''0''"
    using assms unfolding isPlainDecimal_def Let_def body_def [symmetric] fr_def [symmetric] by simp
  have e1: "CHR ''e'' \<notin> set ip" using digits_no_mark(2) [OF ipd] by blast
  have e2: "CHR ''e'' \<notin> set fr"
  proof (cases fr)
    case Nil
    then show ?thesis by simp
  next
    case (Cons ch fp)
    with frc have c: "ch = CHR ''.''" "list_all isDigit fp" by simp_all
    have "CHR ''e'' \<notin> set fp" using digits_no_mark(2) [OF c(2)] by blast
    with c(1) show ?thesis by (simp add: Cons)
  qed
  have eb: "CHR ''e'' \<notin> set body" unfolding b using e1 e2 by simp
  show ?thesis
  proof (cases str)
    case Nil
    then show ?thesis by simp
  next
    case (Cons ch rest)
    show ?thesis
    proof (cases "ch = CHR ''-''")
      case True
      then have "body = rest" by (simp add: body_def Cons)
      with eb True show ?thesis by (simp add: Cons)
    next
      case False
      then have "body = str" by (simp add: body_def Cons)
      with eb show ?thesis by simp
    qed
  qed
qed

section \<open>Comparing numbers\<close>

text \<open>Comparing two finite numbers compares their values.\<close>

lemma finiteGe_value:
  "finiteGe (Fin m1 e1) (Fin m2 e2) = ((of_int m2 :: rat) * pow2 e2 \<le> of_int m1 * pow2 e1)"
proof -
  define em where "em = min e1 e2"
  have sh: "pow2 (em + int n) = pow2 em * 2 ^ n" for n
    by (simp add: pow2_add pow2_nat)
  have k1: "pow2 e1 = pow2 em * 2 ^ nat (e1 - em)"
    using sh [of "nat (e1 - em)"] by (simp add: em_def)
  have k2: "pow2 e2 = pow2 em * 2 ^ nat (e2 - em)"
    using sh [of "nat (e2 - em)"] by (simp add: em_def)
  have "((of_int m2 :: rat) * pow2 e2 \<le> of_int m1 * pow2 e1) =
        (pow2 em * (of_int (m2 * 2 ^ nat (e2 - em)) :: rat) \<le> pow2 em * of_int (m1 * 2 ^ nat (e1 - em)))"
    by (simp add: k1 k2 mult.assoc mult.left_commute)
  also have "\<dots> = ((of_int (m2 * 2 ^ nat (e2 - em)) :: rat) \<le> of_int (m1 * 2 ^ nat (e1 - em)))"
    using pow2_pos [of em] by (simp only: mult_le_cancel_left_pos)
  also have "\<dots> = (m2 * 2 ^ nat (e2 - em) \<le> m1 * 2 ^ nat (e1 - em))"
    by (simp only: of_int_le_iff)
  finally show ?thesis by (simp add: finiteGe_def Let_def em_def)
qed

lemma lit_1e7_value: "decimalToNumber False 1 (- 7) = Fin 7555786372591432 (- 76)"
  by code_simp

text \<open>
  A finite number of magnitude at most the number \<open>1e-7\<close> rounds to at most ten units
  of \<open>10^-8\<close>.
\<close>

lemma small_magnitude_units:
  assumes "numberGe (decimalToNumber False 1 (- 7)) (mathAbs (Fin m e))"
  shows "\<not> atLeast1e21 m e" "scaledNearest m e 8 \<le> 10"
proof -
  obtain num den where md: "magnitude m e = (num, den)" by (cases "magnitude m e")
  have den: "0 < den" and num: "0 \<le> num"
    and val: "(of_int num :: rat) / of_int den = of_int \<bar>m\<bar> * pow2 e"
    using magnitude_props [OF md] by simp_all
  have "(of_int \<bar>m\<bar> :: rat) * pow2 e \<le> of_int 7555786372591432 * pow2 (- 76)"
    using assms by (simp add: lit_1e7_value finiteGe_value)
  also have "\<dots> < 21 / (2 * 10 ^ 8)" by (simp add: pow2_def)
  finally have "(of_int num :: rat) / of_int den < 21 / (2 * 10 ^ 8)" using val by simp
  then have "(of_int (num * (2 * 10 ^ 8)) :: rat) < of_int (21 * den)"
    using den by (simp add: field_simps)
  then have lt: "num * (2 * 10 ^ 8) < 21 * den" by (simp only: of_int_less_iff)
  then have "num < 10 ^ 21 * den" using den num by simp
  then show "\<not> atLeast1e21 m e" by (simp add: atLeast1e21_def md)
  define K where "K = (2 * num * 10 ^ 8 + den) div (2 * den)"
  have d2: "0 < 2 * den" using den by simp
  have "2 * den * K \<le> 2 * num * 10 ^ 8 + den"
    using div_bracket(1) [OF d2, of "2 * num * 10 ^ 8 + den"] by (simp add: K_def)
  with lt have "den * (2 * K) < den * 22" by (simp add: algebra_simps)
  then have "2 * K < 22" using den by (simp only: mult_less_cancel_left_pos)
  then show "scaledNearest m e 8 \<le> 10" by (simp add: scaledNearest_def md K_def)
qed

section \<open>The nearest integer\<close>

text \<open>The nearest integer is within one half of the fraction.\<close>

lemma roundHalfEven_near:
  assumes d: "0 < d"
  shows "(2 * roundHalfEven n d - 1) * d \<le> 2 * n" "2 * n \<le> (2 * roundHalfEven n d + 1) * d"
proof -
  define f where "f = n div d"
  define u where "u = n mod d"
  have n: "n = f * d + u" by (simp add: f_def u_def)
  have u: "0 \<le> u" "u < d" using d by (simp_all add: u_def)
  have v: "roundHalfEven n d = f \<and> 2 * u \<le> d \<or> roundHalfEven n d = f + 1 \<and> d \<le> 2 * u"
    by (simp add: roundHalfEven_def Let_def f_def [symmetric] u_def [symmetric])
  have n2: "2 * n = 2 * f * d + 2 * u" using n by simp
  show "(2 * roundHalfEven n d - 1) * d \<le> 2 * n"
    using v u unfolding n2 by (auto simp: algebra_simps)
  show "2 * n \<le> (2 * roundHalfEven n d + 1) * d"
    using v u unfolding n2 by (auto simp: algebra_simps)
qed

text \<open>An integer strictly within one half of the fraction is the nearest one.\<close>

lemma roundHalfEven_catch:
  assumes d: "0 < d" and lo: "(2 * M - 1) * d < 2 * n" and hi: "2 * n < (2 * M + 1) * d"
  shows "roundHalfEven n d = M"
proof (cases "M * d \<le> n")
  case True
  define u where "u = n - M * d"
  have u: "0 \<le> u" "2 * u < d" using True hi by (simp_all add: u_def algebra_simps)
  then have ud: "u < d" by simp
  have n: "n = d * M + u" by (simp add: u_def)
  have dv: "n div d = M" using n u(1) ud by (rule int_div_pos_eq)
  have md: "n mod d = u" using n u(1) ud by (rule int_mod_pos_eq)
  show ?thesis using u by (simp add: roundHalfEven_def Let_def dv md)
next
  case False
  define u where "u = n - (M - 1) * d"
  have u: "u < d" "d < 2 * u" using False lo by (simp_all add: u_def algebra_simps)
  then have u0: "0 \<le> u" using d by simp
  have n: "n = d * (M - 1) + u" by (simp add: u_def)
  have dv: "n div d = M - 1" using n u0 u(1) by (rule int_div_pos_eq)
  have md: "n mod d = u" using n u0 u(1) by (rule int_mod_pos_eq)
  show ?thesis using u by (simp add: roundHalfEven_def Let_def dv md)
qed

text \<open>The same two facts for the significand at an exponent, as fractions.\<close>

lemma significand_near:
  assumes num: "0 < num" and den: "0 < den"
    and N: "N = (if 0 \<le> e then roundHalfEven num (den * 2 ^ nat e)
                 else roundHalfEven (num * 2 ^ nat (- e)) den)"
  shows "(2 * of_int N - 1) * pow2 e \<le> 2 * (of_int num / of_int den :: rat)"
    and "2 * (of_int num / of_int den :: rat) \<le> (2 * of_int N + 1) * pow2 e"
proof -
  have dpos: "(0::rat) < of_int den" using den by simp
  show "(2 * of_int N - 1) * pow2 e \<le> 2 * (of_int num / of_int den :: rat)"
  proof (cases "0 \<le> e")
    case True
    have "0 < den * 2 ^ nat e" using den by simp
    from roundHalfEven_near(1) [OF this, of num]
    have "(2 * N - 1) * (den * 2 ^ nat e) \<le> 2 * num" using True by (simp add: N)
    then have "(of_int ((2 * N - 1) * (den * 2 ^ nat e)) :: rat) \<le> of_int (2 * num)"
      by (simp only: of_int_le_iff)
    then show ?thesis using dpos True by (simp add: pow2_def field_simps)
  next
    case False
    from roundHalfEven_near(1) [OF den, of "num * 2 ^ nat (- e)"]
    have "(2 * N - 1) * den \<le> 2 * (num * 2 ^ nat (- e))" using False by (simp add: N)
    then have "(of_int ((2 * N - 1) * den) :: rat) \<le> of_int (2 * (num * 2 ^ nat (- e)))"
      by (simp only: of_int_le_iff)
    then show ?thesis using dpos False by (simp add: pow2_def field_simps)
  qed
  show "2 * (of_int num / of_int den :: rat) \<le> (2 * of_int N + 1) * pow2 e"
  proof (cases "0 \<le> e")
    case True
    have "0 < den * 2 ^ nat e" using den by simp
    from roundHalfEven_near(2) [OF this, of num]
    have "2 * num \<le> (2 * N + 1) * (den * 2 ^ nat e)" using True by (simp add: N)
    then have "(of_int (2 * num) :: rat) \<le> of_int ((2 * N + 1) * (den * 2 ^ nat e))"
      by (simp only: of_int_le_iff)
    then show ?thesis using dpos True by (simp add: pow2_def field_simps)
  next
    case False
    from roundHalfEven_near(2) [OF den, of "num * 2 ^ nat (- e)"]
    have "2 * (num * 2 ^ nat (- e)) \<le> (2 * N + 1) * den" using False by (simp add: N)
    then have "(of_int (2 * (num * 2 ^ nat (- e))) :: rat) \<le> of_int ((2 * N + 1) * den)"
      by (simp only: of_int_le_iff)
    then show ?thesis using dpos False by (simp add: pow2_def field_simps)
  qed
qed

lemma significand_catch:
  assumes num: "0 < num" and den: "0 < den"
    and lo: "(2 * of_int M - 1) * pow2 e < 2 * (of_int num / of_int den :: rat)"
    and hi: "2 * (of_int num / of_int den :: rat) < (2 * of_int M + 1) * pow2 e"
  shows "(if 0 \<le> e then roundHalfEven num (den * 2 ^ nat e)
          else roundHalfEven (num * 2 ^ nat (- e)) den) = M"
proof (cases "0 \<le> e")
  case True
  have dpos: "(0::rat) < of_int den" using den by simp
  have d': "0 < den * 2 ^ nat e" using den by simp
  have "(of_int ((2 * M - 1) * (den * 2 ^ nat e)) :: rat) < of_int (2 * num)"
    using lo dpos True by (simp add: pow2_def field_simps)
  then have l: "(2 * M - 1) * (den * 2 ^ nat e) < 2 * num" by (simp only: of_int_less_iff)
  have "(of_int (2 * num) :: rat) < of_int ((2 * M + 1) * (den * 2 ^ nat e))"
    using hi dpos True by (simp add: pow2_def field_simps)
  then have h: "2 * num < (2 * M + 1) * (den * 2 ^ nat e)" by (simp only: of_int_less_iff)
  from roundHalfEven_catch [OF d' l h] True show ?thesis by simp
next
  case False
  have dpos: "(0::rat) < of_int den" using den by simp
  have "(of_int ((2 * M - 1) * den) :: rat) < of_int (2 * (num * 2 ^ nat (- e)))"
    using lo dpos False by (simp add: pow2_def field_simps)
  then have l: "(2 * M - 1) * den < 2 * (num * 2 ^ nat (- e))" by (simp only: of_int_less_iff)
  have "(of_int (2 * (num * 2 ^ nat (- e))) :: rat) < of_int ((2 * M + 1) * den)"
    using hi dpos False by (simp add: pow2_def field_simps)
  then have h: "2 * (num * 2 ^ nat (- e)) < (2 * M + 1) * den" by (simp only: of_int_less_iff)
  from roundHalfEven_catch [OF den l h] False show ?thesis by simp
qed

section \<open>Rounding to a number: error and capture\<close>

lemma pow2_add_nat: "pow2 (k + int n) = 2 ^ n * pow2 k"
  by (simp add: pow2_add pow2_nat)

text \<open>
  What rounding returns: a well-formed number of the given sign, within half a unit in
  its last place of the fraction.
\<close>

lemma roundToDouble_Fin:
  assumes num: "0 < num" and den: "0 < den" and res: "roundToDouble neg num den = Fin m e"
  shows "isNumber (Fin m e)" and "(m < 0) = neg"
    and "(2 * of_int \<bar>m\<bar> - 1) * pow2 e \<le> 2 * (of_int num / of_int den :: rat)"
    and "2 * (of_int num / of_int den :: rat) \<le> (2 * of_int \<bar>m\<bar> + 1) * pow2 e"
proof -
  define q :: rat where "q = of_int num / of_int den"
  define e0 where "e0 = max (ilog2 num den - 52) (- 1074)"
  define N where "N = (if 0 \<le> e0 then roundHalfEven num (den * 2 ^ nat e0)
                       else roundHalfEven (num * 2 ^ nat (- e0)) den)"
  define U where "U = pow2 e0"
  have U: "0 < U" by (simp add: U_def pow2_pos)
  have il: "pow2 (ilog2 num den) \<le> q" "q < pow2 (ilog2 num den + 1)"
    using ilog2_correct [OF num den] by (simp_all add: q_def)
  have qpos: "0 < q" using num den by (simp add: q_def)
  have near: "(2 * of_int N - 1) * U \<le> 2 * q" "2 * q \<le> (2 * of_int N + 1) * U"
    using significand_near [OF num den N_def] by (simp_all add: q_def U_def)
  have p53: "pow2 (e0 + 53) = 2 ^ 53 * U"
    using pow2_add_nat [of e0 53] by (simp add: U_def)
  have p52: "pow2 (e0 + 52) = 2 ^ 52 * U"
    using pow2_add_nat [of e0 52] by (simp add: U_def)
  have p1: "pow2 (e0 + 1) = 2 * U"
    using pow2_add_nat [of e0 1] by (simp add: U_def)
  have "ilog2 num den + 1 \<le> e0 + 53" by (simp add: e0_def)
  then have "pow2 (ilog2 num den + 1) \<le> pow2 (e0 + 53)" by (rule pow2_mono)
  with il(2) have ub: "q < 2 ^ 53 * U" by (simp add: p53)
  have "(2 * of_int N - 1) * U < 2 ^ 54 * U" using near(1) ub by simp
  then have "(2 * of_int N - 1 :: rat) < 2 ^ 54" using U by (simp only: mult_less_cancel_right_pos)
  then have "(of_int (2 * N - 1) :: rat) < of_int (2 ^ 54)" by simp
  then have "2 * N - 1 < 2 ^ 54" by (simp only: of_int_less_iff)
  then have Nub: "N \<le> 2 ^ 53" by simp
  have "0 * U < (2 * of_int N + 1) * U" using near(2) qpos by simp
  then have "(0::rat) < 2 * of_int N + 1" using U by (simp only: mult_less_cancel_right_pos)
  then have "(of_int 0 :: rat) < of_int (2 * N + 1)" by simp
  then have "0 < 2 * N + 1" by (simp only: of_int_less_iff)
  then have Nlb: "0 \<le> N" by simp
  have Nnorm: "e0 = - 1074 \<or> 2 ^ 52 \<le> N"
  proof (cases "e0 = - 1074")
    case False
    then have "e0 = ilog2 num den - 52" by (simp add: e0_def max_def split: if_splits)
    then have "pow2 (e0 + 52) \<le> q" using il(1) by simp
    then have "2 ^ 53 * U \<le> (2 * of_int N + 1) * U" using near(2) by (simp add: p52)
    then have "(2 ^ 53 :: rat) \<le> 2 * of_int N + 1" using U by (simp only: mult_le_cancel_right_pos)
    then have "(of_int (2 ^ 53) :: rat) \<le> of_int (2 * N + 1)" by simp
    then have "2 ^ 53 \<le> 2 * N + 1" by (simp only: of_int_le_iff)
    then show ?thesis by simp
  qed simp
  have el: "- 1074 \<le> e0" by (simp add: e0_def)
  have nz: "num \<noteq> 0" using num by simp
  have out: "(if 971 < (if N = 2 ^ 53 then e0 + 1 else e0) then (if neg then NegInf else PosInf)
              else if (if N = 2 ^ 53 then 2 ^ 52 else N) = 0 then (if neg then NegZero else PosZero)
              else Fin (if neg then - (if N = 2 ^ 53 then 2 ^ 52 else N)
                        else (if N = 2 ^ 53 then 2 ^ 52 else N))
                     (if N = 2 ^ 53 then e0 + 1 else e0)) = Fin m e"
    using res nz unfolding roundToDouble_def Let_def e0_def [symmetric] N_def [symmetric]
    by simp
  have all: "isNumber (Fin m e) \<and> (m < 0) = neg
      \<and> (2 * of_int \<bar>m\<bar> - 1) * pow2 e \<le> 2 * q \<and> 2 * q \<le> (2 * of_int \<bar>m\<bar> + 1) * pow2 e"
  proof (cases "N = 2 ^ 53")
    case True
    from out True have me: "m = (if neg then - (2 ^ 52) else 2 ^ 52)" "e = e0 + 1" "e \<le> 971"
      by (simp_all split: if_splits)
    then have am: "\<bar>m\<bar> = 2 ^ 52" by simp
    have w: "isNumber (Fin m e)" using me el by (simp add: isNumber_def)
    have sg: "(m < 0) = neg" using me by simp
    have n1: "(2 * 2 ^ 53 - 1) * U \<le> 2 * q" using near(1) True by simp
    have n2: "2 * q \<le> (2 * 2 ^ 53 + 1) * U" using near(2) True by simp
    have b1: "(2 * of_int \<bar>m\<bar> - 1) * pow2 e \<le> 2 * q"
      using n1 U unfolding am me(2) p1 by simp
    have b2: "2 * q \<le> (2 * of_int \<bar>m\<bar> + 1) * pow2 e"
      using n2 U unfolding am me(2) p1 by simp
    from w sg b1 b2 show ?thesis by simp
  next
    case False
    from out False have me: "m = (if neg then - N else N)" "e = e0" "e \<le> 971" "N \<noteq> 0"
      by (simp_all split: if_splits)
    then have am: "\<bar>m\<bar> = N" using Nlb by simp
    have "N < 2 ^ 53" using Nub False by simp
    then have w: "isNumber (Fin m e)" using me el Nnorm Nlb by (auto simp: isNumber_def)
    have sg: "(m < 0) = neg" using me Nlb by auto
    have b1: "(2 * of_int \<bar>m\<bar> - 1) * pow2 e \<le> 2 * q"
      using near(1) unfolding am me(2) U_def .
    have b2: "2 * q \<le> (2 * of_int \<bar>m\<bar> + 1) * pow2 e"
      using near(2) unfolding am me(2) U_def .
    from w sg b1 b2 show ?thesis by simp
  qed
  from all show "isNumber (Fin m e)" and "(m < 0) = neg"
    and "(2 * of_int \<bar>m\<bar> - 1) * pow2 e \<le> 2 * (of_int num / of_int den :: rat)"
    and "2 * (of_int num / of_int den :: rat) \<le> (2 * of_int \<bar>m\<bar> + 1) * pow2 e"
    by (simp_all add: q_def)
qed

text \<open>
  A fraction strictly within half a unit in the last place of a number rounds to that
  number, unless the number is a power of two above the least exponent and the fraction
  lies below it.
\<close>

lemma roundToDouble_catch:
  assumes num: "0 < num" and den: "0 < den" and M: "0 < M"
    and wf: "isNumber (Fin M E)"
    and lo: "(2 * of_int M - 1) * pow2 E < 2 * (of_int num / of_int den :: rat)"
    and hi: "2 * (of_int num / of_int den :: rat) < (2 * of_int M + 1) * pow2 E"
    and side: "2 ^ 52 < M \<or> E = - 1074 \<or> of_int M * pow2 E \<le> (of_int num / of_int den :: rat)"
  shows "roundToDouble neg num den = Fin (if neg then - M else M) E"
proof -
  define q :: rat where "q = of_int num / of_int den"
  define U where "U = pow2 E"
  have U: "0 < U" by (simp add: U_def pow2_pos)
  from wf M have Mlt: "M < 2 ^ 53" and El: "- 1074 \<le> E" and Eu: "E \<le> 971"
    and shape: "E = - 1074 \<or> 2 ^ 52 \<le> M"
    by (simp_all add: isNumber_def)
  have il: "pow2 (ilog2 num den) \<le> q" "q < pow2 (ilog2 num den + 1)"
    using ilog2_correct [OF num den] by (simp_all add: q_def)
  have lo': "(2 * of_int M - 1) * U < 2 * q" and hi': "2 * q < (2 * of_int M + 1) * U"
    using lo hi by (simp_all add: q_def U_def)
  have p53: "pow2 (E + 53) = 2 ^ 53 * U"
    using pow2_add_nat [of E 53] by (simp add: U_def)
  have p52: "pow2 (E + 52) = 2 ^ 52 * U"
    using pow2_add_nat [of E 52] by (simp add: U_def)
  have "M + 1 \<le> 2 ^ 53" using Mlt by simp
  then have "(of_int (M + 1) :: rat) \<le> of_int (2 ^ 53)" by (simp only: of_int_le_iff)
  then have M1: "(of_int M :: rat) + 1 \<le> 2 ^ 53" by simp
  then have "(2 * of_int M + 1) * U \<le> 2 * 2 ^ 53 * U" using U by simp
  with hi' have "q < pow2 (E + 53)" by (simp add: p53)
  with il(1) have "pow2 (ilog2 num den) < pow2 (E + 53)" by simp
  then have up: "ilog2 num den < E + 53" by (rule pow2_less_cancel)
  have low: "E = - 1074 \<or> E + 52 \<le> ilog2 num den"
  proof (cases "E = - 1074")
    case False
    with shape have M52: "2 ^ 52 \<le> M" by simp
    have "pow2 (E + 52) \<le> q"
    proof (cases "2 ^ 52 < M")
      case True
      then have "2 ^ 52 + 1 \<le> M" by simp
      then have "(of_int (2 ^ 52 + 1) :: rat) \<le> of_int M" by (simp only: of_int_le_iff)
      then have "(2 ^ 52 :: rat) + 1 \<le> of_int M" by simp
      then have "2 * 2 ^ 52 * U \<le> (2 * of_int M - 1) * U" using U by simp
      with lo' show ?thesis by (simp add: p52)
    next
      case F: False
      with M52 have Meq: "M = 2 ^ 52" by simp
      from side F False have "of_int M * U \<le> q" by (simp add: q_def U_def)
      then show ?thesis by (simp add: p52 Meq)
    qed
    with il(2) have "pow2 (E + 52) < pow2 (ilog2 num den + 1)" by simp
    then have "E + 52 < ilog2 num den + 1" by (rule pow2_less_cancel)
    then show ?thesis by simp
  qed simp
  have e: "max (ilog2 num den - 52) (- 1074) = E" using up low El by auto
  have m: "(if 0 \<le> E then roundHalfEven num (den * 2 ^ nat E)
            else roundHalfEven (num * 2 ^ nat (- E)) den) = M"
    using num den lo hi by (rule significand_catch)
  have nz: "num \<noteq> 0" using num by simp
  show ?thesis
    unfolding roundToDouble_def Let_def e m using nz Mlt Eu M by simp
qed

section \<open>Printing and reading the nearest number\<close>

text \<open>
  The number nearest to \<open>k / 10^8\<close>, printed with eight fraction digits and read back, is
  that number again.  Where the numbers are closer together than \<open>10^-8\<close> the digits
  printed are those of \<open>k\<close>; elsewhere the printed value is nearer to the number than
  half the distance to its neighbours, or the number is itself a multiple of \<open>10^-8\<close>.
\<close>

lemma nearest_units:
  assumes k: "0 < k" and x: "decimalToNumber neg k (- 8) = Fin m e"
    and small: "\<not> atLeast1e21 m e"
  shows "isNumber (Fin m e)" and "0 < scaledNearest m e 8"
    and "decimalToNumber (m < 0) (scaledNearest m e 8) (- 8) = Fin m e"
proof -
  define M where "M = \<bar>m\<bar>"
  define U where "U = pow2 e"
  define K where "K = scaledNearest m e 8"
  define A :: rat where "A = of_int M * U"
  have U: "0 < U" by (simp add: U_def pow2_pos)
  have k8: "(0::int) < 10 ^ 8" by simp
  have rd: "roundToDouble neg k (10 ^ 8) = Fin m e" using x by (simp add: decimalToNumber_def)
  have wf: "isNumber (Fin m e)" and sg: "(m < 0) = neg"
    and b1: "(2 * of_int M - 1) * U \<le> 2 * (of_int k / of_int (10 ^ 8) :: rat)"
    and b2: "2 * (of_int k / of_int (10 ^ 8) :: rat) \<le> (2 * of_int M + 1) * U"
    using roundToDouble_Fin [OF k k8 rd] by (simp_all add: M_def U_def)
  have mnz: "m \<noteq> 0" and Mlt: "M < 2 ^ 53" and shape: "e = - 1074 \<or> 2 ^ 52 \<le> M"
    using wf by (simp_all add: isNumber_def M_def)
  have Mpos: "0 < M" using mnz by (simp add: M_def)
  have wfa: "isNumber (Fin M e)" using wf by (simp add: isNumber_def M_def)
  have again: "Fin (if m < 0 then - M else M) e = Fin m e" by (simp add: M_def)
  obtain num den where md: "magnitude m e = (num, den)" by (cases "magnitude m e")
  have den: "0 < den" and val: "(of_int num :: rat) / of_int den = A"
    using magnitude_props [OF md] by (simp_all add: A_def M_def U_def)
  have dpos: "(0::rat) < of_int den" using den by simp
  have Kd: "K = (2 * num * 10 ^ 8 + den) div (2 * den)"
    by (simp add: K_def scaledNearest_def md)
  have d2: "0 < 2 * den" using den by simp
  have "2 * den * K \<le> 2 * num * 10 ^ 8 + den" "2 * num * 10 ^ 8 + den < 2 * den * K + 2 * den"
    using div_bracket [OF d2, of "2 * num * 10 ^ 8 + den"] by (simp_all add: Kd)
  then have "(of_int (2 * den * K) :: rat) \<le> of_int (2 * num * 10 ^ 8 + den)"
    "(of_int (2 * num * 10 ^ 8 + den) :: rat) < of_int (2 * den * K + 2 * den)"
    by (simp_all only: of_int_le_iff of_int_less_iff)
  then have "2 * of_int K - 1 \<le> 2 * (of_int num / of_int den :: rat) * 10 ^ 8"
    "2 * (of_int num / of_int den :: rat) * 10 ^ 8 < 2 * of_int K + 1"
    using dpos by (simp_all add: field_simps)
  then have kb1: "2 * of_int K - 1 \<le> 2 * A * 10 ^ 8" and kb2: "2 * A * 10 ^ 8 < 2 * of_int K + 1"
    by (simp_all add: val)
  have c1: "(2 * A - U) * 10 ^ 8 \<le> 2 * of_int k" and c2: "2 * of_int k \<le> (2 * A + U) * 10 ^ 8"
    using b1 b2 by (simp_all add: A_def field_simps)
  have res: "0 < K \<and> decimalToNumber (m < 0) K (- 8) = Fin m e"
  proof (cases "e \<le> - 27")
    case True
    then have "pow2 e \<le> pow2 (- 27)" by (rule pow2_mono)
    then have "U \<le> 1 / 2 ^ 27" by (simp add: U_def pow2_def)
    then have u8: "U * 10 ^ 8 < 1" by simp
    have "(2 * of_int K - 1 :: rat) < 2 * of_int k + 1" using kb1 c1 u8 by (simp add: algebra_simps)
    then have "(of_int (2 * K - 1) :: rat) < of_int (2 * k + 1)" by simp
    then have le1: "2 * K - 1 < 2 * k + 1" by (simp only: of_int_less_iff)
    have "(2 * of_int k - 1 :: rat) < 2 * of_int K + 1" using kb2 c2 u8 by (simp add: algebra_simps)
    then have "(of_int (2 * k - 1) :: rat) < of_int (2 * K + 1)" by simp
    then have le2: "2 * k - 1 < 2 * K + 1" by (simp only: of_int_less_iff)
    from le1 le2 have "K = k" by simp
    then show ?thesis using k x sg by simp
  next
    case False
    then have "pow2 (- 26) \<le> pow2 e" by (intro pow2_mono) simp
    then have "1 / 2 ^ 26 \<le> U" by (simp add: U_def pow2_def)
    then have u8: "1 < U * 10 ^ 8" by simp
    show ?thesis
    proof (cases "- 8 \<le> e \<or> M = 2 ^ 52")
      case True
      have dv: "den dvd num * 10 ^ 8"
      proof (cases "0 \<le> e")
        case True
        with md show ?thesis by (simp add: magnitude_def)
      next
        case ng: False
        with md have nd: "num = M" "den = 2 ^ nat (- e)" by (simp_all add: magnitude_def M_def)
        from True show ?thesis
        proof
          assume "- 8 \<le> e"
          then have "nat (- e) \<le> 8" by simp
          then have "(2::int) ^ nat (- e) dvd 2 ^ 8" by (rule le_imp_power_dvd)
          moreover have "(2::int) ^ 8 dvd 10 ^ 8" by simp
          ultimately have "den dvd 10 ^ 8" unfolding nd by (rule dvd_trans)
          then show ?thesis by (rule dvd_mult)
        next
          assume "M = 2 ^ 52"
          moreover have "nat (- e) \<le> 52" using False by simp
          then have "(2::int) ^ nat (- e) dvd 2 ^ 52" by (rule le_imp_power_dvd)
          ultimately have "den dvd num" by (simp add: nd)
          then show ?thesis by (rule dvd_mult2)
        qed
      qed
      then have "(num * 10 ^ 8) mod den = 0" by simp
      with md have v: "(of_int K :: rat) * pow10 (- 8) = of_int \<bar>m\<bar> * pow2 e"
        unfolding K_def by (rule exact_units)
      have "(0::rat) < of_int \<bar>m\<bar> * pow2 e" using mnz pow2_pos [of e] by simp
      with v have "(0::rat) < of_int K * pow10 (- 8)" by simp
      then have "(0::rat) < of_int K" using pow10_pos [of "- 8"] by (simp add: zero_less_mult_iff)
      then have Kpos: "0 < K" by simp
      have "decimalToNumber (m < 0) K (- 8) = Fin (if m < 0 then - M else M) e"
        using Kpos Mpos wfa v [folded M_def] by (rule decimalToNumber_exact)
      with Kpos again show ?thesis by simp
    next
      case F: False
      then have e8: "e \<noteq> - 1074" and M52: "2 ^ 52 < M" using shape False by auto
      have "2 ^ 52 + 1 \<le> M" using M52 by simp
      then have "(of_int (2 ^ 52 + 1) :: rat) \<le> of_int M" by (simp only: of_int_le_iff)
      then have "(1::rat) \<le> of_int M" by simp
      then have "1 * U \<le> of_int M * U" using U by (simp only: mult_le_cancel_right_pos)
      then have AU: "U \<le> A" by (simp add: A_def)
      have "(0::rat) < 2 * of_int K" using kb2 AU u8 U by (simp add: algebra_simps)
      then have Kpos: "0 < K" by simp
      have lo: "(2 * of_int M - 1) * pow2 e < 2 * (of_int K / of_int (10 ^ 8) :: rat)"
        using kb2 u8 by (simp add: A_def U_def field_simps)
      have hi: "2 * (of_int K / of_int (10 ^ 8) :: rat) < (2 * of_int M + 1) * pow2 e"
        using kb1 u8 by (simp add: A_def U_def field_simps)
      have "roundToDouble (m < 0) K (10 ^ 8) = Fin (if m < 0 then - M else M) e"
        using Kpos k8 Mpos wfa lo hi by (rule roundToDouble_catch) (use M52 in simp)
      then have "decimalToNumber (m < 0) K (- 8) = Fin m e"
        using again by (simp add: decimalToNumber_def)
      with Kpos show ?thesis by simp
    qed
  qed
  show "isNumber (Fin m e)" by (rule wf)
  show "0 < scaledNearest m e 8" using res by (simp add: K_def)
  show "decimalToNumber (m < 0) (scaledNearest m e 8) (- 8) = Fin m e" using res by (simp add: K_def)
qed

section \<open>The form and the value of what the encoder returns\<close>

text \<open>A number below \<open>10^21\<close> has fewer than \<open>10^29\<close> units of \<open>10^-8\<close>.\<close>

lemma scaledNearest_below:
  assumes wf: "isNumber (Fin m e)" and small: "\<not> atLeast1e21 m e"
  shows "scaledNearest m e 8 < 10 ^ 29"
proof (cases "0 \<le> e")
  case True
  then have md: "magnitude m e = (\<bar>m\<bar> * 2 ^ nat e, 1)" by (simp add: magnitude_def)
  have lt: "\<bar>m\<bar> * 2 ^ nat e < 10 ^ 21" using small by (simp add: atLeast1e21_def md)
  have "scaledNearest m e 8 = (2 * (\<bar>m\<bar> * 2 ^ nat e * 10 ^ 8) + 1) div 2"
    by (simp add: scaledNearest_def md)
  also have "\<dots> = \<bar>m\<bar> * 2 ^ nat e * 10 ^ 8" by simp
  also have "\<dots> < 10 ^ 21 * 10 ^ 8" using lt by (intro mult_strict_right_mono) simp_all
  finally show ?thesis by simp
next
  case False
  define den :: int where "den = 2 ^ nat (- e)"
  define K where "K = scaledNearest m e 8"
  have md: "magnitude m e = (\<bar>m\<bar>, den)" using False by (simp add: magnitude_def den_def)
  have den: "1 \<le> den" by (simp add: den_def)
  have mlt: "\<bar>m\<bar> < 2 ^ 53" using wf by (simp add: isNumber_def)
  have Kd: "K = (2 * \<bar>m\<bar> * 10 ^ 8 + den) div (2 * den)" by (simp add: K_def scaledNearest_def md)
  have d2: "0 < 2 * den" using den by simp
  have "2 * den * K \<le> 2 * \<bar>m\<bar> * 10 ^ 8 + den"
    using div_bracket(1) [OF d2, of "2 * \<bar>m\<bar> * 10 ^ 8 + den"] by (simp add: Kd)
  then have b: "den * (2 * K - 1) \<le> 2 * \<bar>m\<bar> * 10 ^ 8" by (simp add: algebra_simps)
  have "2 * K - 1 \<le> 2 * \<bar>m\<bar> * 10 ^ 8"
  proof (cases "0 \<le> 2 * K - 1")
    case True
    with den have "1 * (2 * K - 1) \<le> den * (2 * K - 1)" by (intro mult_right_mono) simp_all
    with b show ?thesis by simp
  next
    case False
    then show ?thesis by simp
  qed
  with mlt have "K < 10 ^ 29" by simp
  then show ?thesis by (simp add: K_def)
qed

lemma zero_decimal_text:
  "Decimal_toString (DFinite neg 0 ''0'') = ''0''"
  by (cases neg) (simp_all add: Decimal_toString_def finiteToString_def Let_def)

text \<open>
  The form of what the encoder returns for a finite non-zero number, by the number \<open>K\<close>
  of units of \<open>10^-8\<close> it is nearest to: exponent notation from \<open>10^21\<close> on and for
  \<open>1 \<le> K \<le> 99\<close>, a plain numeral otherwise.
\<close>

lemma output_form:
  assumes wf: "isNumber (Fin m e)" and out: "floatToWire (Fin m e) = Inr str"
  defines "K \<equiv> scaledNearest m e 8"
  shows "if atLeast1e21 m e \<or> (1 \<le> K \<and> K \<le> 99)
         then CHR ''e'' \<in> set str \<and> \<not> isPlainDecimal str
         else isPlainDecimal str \<and> CHR ''e'' \<notin> set str \<and> (K = 0 \<longrightarrow> str = ''0'')"
proof (cases "atLeast1e21 m e")
  case True
  obtain e3 ds where dn: "Decimal_new (toFixed (Fin m e) 8) = Inr (DFinite (m < 0) e3 ds)"
    and e21: "21 \<le> e3"
    using encode_large(3) [OF wf True] by blast
  have "str = Decimal_toString (DFinite (m < 0) e3 ds)"
    using out encode_large(2) [OF wf True]
    by (simp add: floatToWire_def Let_def dn split: if_splits)
  then have mk: "CHR ''e'' \<in> set str" using e21 by (simp add: toString_exponent_marker)
  then have "\<not> isPlainDecimal str" using plain_no_exponent_marker [of str] by blast
  with mk True show ?thesis by simp
next
  case False
  have Knn: "0 \<le> K" using scaledNearest_bounds(1) [OF False] by (simp add: K_def)
  have Kub: "K < 10 ^ 29" using scaledNearest_below [OF wf False] by (simp add: K_def)
  obtain e3 ds where str: "str = Decimal_toString (DFinite (m < 0) e3 ds)"
    and dsd: "list_all isDigit ds" "ds \<noteq> []"
    and shape: "if K = 0 then ds = ''0'' \<and> e3 = 0
               else hd ds \<noteq> CHR ''0'' \<and> last ds \<noteq> CHR ''0'' \<and> e3 = int (length (digits K)) - 9"
    using floatToWire_small [OF False out] unfolding K_def by blast
  show ?thesis
  proof (cases "K = 0")
    case True
    with shape have z: "ds = ''0''" "e3 = 0" by simp_all
    have "isPlainDecimal str" unfolding str using dsd by (rule plain_toString) (simp_all add: z)
    moreover from this have "CHR ''e'' \<notin> set str" by (rule plain_no_exponent_marker)
    moreover have "str = ''0''" unfolding str z by (rule zero_decimal_text)
    ultimately show ?thesis using False True by simp
  next
    case nz: False
    with shape have sh: "hd ds \<noteq> CHR ''0''" "last ds \<noteq> CHR ''0''"
      and e3: "e3 = int (length (digits K)) - 9" by simp_all
    show ?thesis
    proof (cases "K \<le> 99")
      case True
      then have "K < 10 ^ 2" by simp
      with Knn have "length (digits K) \<le> 2" by (rule digits_length_le) simp
      then have "e3 \<le> - 7" by (simp add: e3)
      then have mk: "CHR ''e'' \<in> set str" unfolding str by (simp add: toString_exponent_marker)
      then have "\<not> isPlainDecimal str" using plain_no_exponent_marker [of str] by blast
      with mk True nz Knn show ?thesis by simp
    next
      case big: False
      then have "10 ^ 2 \<le> K" by simp
      with Knn have "2 < length (digits K)" by (rule digits_length_gt)
      then have lo: "- 7 < e3" by (simp add: e3)
      have "length (digits K) \<le> 29" using Knn Kub by (rule digits_length_le) simp
      then have hi: "e3 < 21" by (simp add: e3)
      have "isPlainDecimal str" unfolding str using dsd _ lo hi by (rule plain_toString) (simp add: sh)
      moreover from this have "CHR ''e'' \<notin> set str" by (rule plain_no_exponent_marker)
      ultimately show ?thesis using False big nz by simp
    qed
  qed
qed


text \<open>
  Claim C2, as the code has it.  For every number \<open>x\<close> the encoder fails with the error
  \<open>floatToWire causes rounding\<close> exactly when \<open>x\<close> printed with eight fraction digits and
  read back differs from \<open>x\<close> by the number \<open>1e-12\<close> or more; in every other case it
  returns a string.  How many fraction digits \<open>x\<close> needs plays no part beyond that.
\<close>

theorem precision_loss_iff:
  assumes "isNumber x"
  shows "(floatToWire x = Inl (Error ''floatToWire causes rounding'')) =
           numberGe (mathAbs (numberSub (parseFloat (toFixed x 8)) x)) tolerance
         \<and> ((\<exists>str. floatToWire x = Inr str) =
           (\<not> numberGe (mathAbs (numberSub (parseFloat (toFixed x 8)) x)) tolerance))"
proof (cases x)
  case (Fin m e)
  with assms have wf: "isNumber (Fin m e)" by simp
  from floatToWire_Fin [OF wf] show ?thesis unfolding Fin by (auto split: if_splits)
next
  case NaN
  have "\<not> numberGe (mathAbs (numberSub (parseFloat (toFixed NaN 8)) NaN)) tolerance" by code_simp
  then show ?thesis using NaN floatToWire_special by simp
next
  case PosInf
  have "\<not> numberGe (mathAbs (numberSub (parseFloat (toFixed PosInf 8)) PosInf)) tolerance" by code_simp
  then show ?thesis using PosInf floatToWire_special by simp
next
  case NegInf
  have "\<not> numberGe (mathAbs (numberSub (parseFloat (toFixed NegInf 8)) NegInf)) tolerance" by code_simp
  then show ?thesis using NegInf floatToWire_special by simp
next
  case PosZero
  have "\<not> numberGe (mathAbs (numberSub (parseFloat (toFixed PosZero 8)) PosZero)) tolerance" by code_simp
  then show ?thesis using PosZero floatToWire_special by simp
next
  case NegZero
  have "\<not> numberGe (mathAbs (numberSub (parseFloat (toFixed NegZero 8)) NegZero)) tolerance" by code_simp
  then show ?thesis using NegZero floatToWire_special by simp
qed

text \<open>
  Witness for C2: the number \<open>0.123456789\<close>, which is refused, as the number it is
  read back as differs from it by about \<open>1e-9\<close>.
\<close>

theorem precision_loss_iff_witness:
  "isNumber (Fin 8895999182988127 (- 56))
   \<and> decimalToNumber False 123456789 (- 9) = Fin 8895999182988127 (- 56)
   \<and> numberGe (mathAbs (numberSub (parseFloat (toFixed (Fin 8895999182988127 (- 56)) 8))
        (Fin 8895999182988127 (- 56)))) tolerance
   \<and> floatToWire (Fin 8895999182988127 (- 56)) = Inl (Error ''floatToWire causes rounding'')"
proof -
  have h: "isNumber (Fin 8895999182988127 (- 56))" by (simp add: isNumber_def)
  have l: "decimalToNumber False 123456789 (- 9) = Fin 8895999182988127 (- 56)" by code_simp
  have g: "numberGe (mathAbs (numberSub (parseFloat (toFixed (Fin 8895999182988127 (- 56)) 8))
        (Fin 8895999182988127 (- 56)))) tolerance" by code_simp
  from precision_loss_iff [OF h] g l h show ?thesis by simp
qed

text \<open>
  Counterexample to C2 as stated: the number \<open>1e-13\<close> needs more than eight fraction
  digits and is accepted.
\<close>

theorem more_than_eight_digits_accepted:
  "\<not> fractionDigitsAtMost (decimalToNumber False 1 (- 13)) 8
   \<and> floatToWire (decimalToNumber False 1 (- 13)) = Inr ''0''"
  by code_simp

lemma roundToDouble_not_NaN: "roundToDouble neg num den \<noteq> NaN"
  by (simp add: roundToDouble_def Let_def)

lemma parseFloat_Infinity_text:
  "parseFloat ''Infinity'' = PosInf" "parseFloat ''-Infinity'' = NegInf"
  by code_simp+

text \<open>
  A number whose own value has at most eight fraction digits is the number nearest to
  a multiple of \<open>10^-8\<close>, namely to itself.
\<close>

lemma exact_is_nearest:
  assumes wf: "isNumber (Fin m e)" and fd: "fractionDigitsAtMost (Fin m e) 8"
  shows "0 < scaledNearest m e 8"
    and "Fin m e = decimalToNumber (m < 0) (scaledNearest m e 8) (- 8)"
proof -
  define K where "K = scaledNearest m e 8"
  from wf have mnz: "m \<noteq> 0" by (simp add: isNumber_def)
  obtain num den where md: "magnitude m e = (num, den)" by (cases "magnitude m e")
  have "(num * 10 ^ 8) mod den = 0" using fd by (simp add: fractionDigitsAtMost_def md)
  with md have val: "(of_int K :: rat) * pow10 (- 8) = of_int \<bar>m\<bar> * pow2 e"
    unfolding K_def by (rule exact_units)
  have "(0::rat) < of_int \<bar>m\<bar> * pow2 e" using mnz pow2_pos [of e] by simp
  with val have "(0::rat) < of_int K * pow10 (- 8)" by simp
  then have "(0::rat) < of_int K" using pow10_pos [of "- 8"] by (simp add: zero_less_mult_iff)
  then have Kpos: "0 < K" by simp
  have wfa: "isNumber (Fin \<bar>m\<bar> e)" using wf by (simp add: isNumber_def)
  have "decimalToNumber (m < 0) K (- 8) = Fin (if m < 0 then - \<bar>m\<bar> else \<bar>m\<bar>) e"
    using Kpos _ wfa val by (rule decimalToNumber_exact) (use mnz in simp)
  then have "decimalToNumber (m < 0) K (- 8) = Fin m e" by simp
  with Kpos show "0 < scaledNearest m e 8"
    and "Fin m e = decimalToNumber (m < 0) (scaledNearest m e 8) (- 8)"
    by (simp_all add: K_def)
qed

text \<open>
  Claim C3.  Let \<open>x\<close> be the number that a decimal numeral with at most eight fraction
  digits denotes: the number nearest to \<open>k / 10^j\<close>, of either sign, for an integer
  \<open>k \<ge> 0\<close> and \<open>0 \<le> j \<le> 8\<close> (the numbers \<open>0.001\<close>, \<open>0.1\<close>, \<open>0.3\<close> and \<open>1e-8\<close> among them, and
  by \<open>exact_is_nearest\<close> every number whose own value has at most eight fraction
  digits).  The encoder accepts \<open>x\<close>, and the string it returns, read back with
  \<open>parseFloat\<close>, is \<open>x\<close> (for negative zero the positive zero, which \<open>===\<close> does not tell
  apart from it).
\<close>

theorem round_trip:
  assumes k: "0 \<le> k" and j: "0 \<le> j" "j \<le> 8" and x: "x = decimalToNumber neg k (- j)"
  shows "\<exists>str. floatToWire x = Inr str \<and> strictEq (parseFloat str) x
           \<and> (x \<noteq> NegZero \<longrightarrow> parseFloat str = x)"
proof -
  define k' where "k' = k * 10 ^ nat (8 - j)"
  have k': "0 \<le> k'" using k by (simp add: k'_def)
  have "pow10 (- j) = pow10 (8 - j) * pow10 (- 8)"
    using pow10_add [of "8 - j" "- 8"] by simp
  also have "pow10 (8 - j) = 10 ^ nat (8 - j)" using j by (simp add: pow10_def)
  finally have "(of_int k :: rat) * pow10 (- j) = of_int k' * pow10 (- 8)"
    by (simp add: k'_def)
  with k k' have "decimalToNumber neg k (- j) = decimalToNumber neg k' (- 8)"
    by (rule decimalToNumber_cong)
  with x have x8: "x = decimalToNumber neg k' (- 8)" by simp
  then have xr: "x = roundToDouble neg k' (10 ^ 8)" by (simp add: decimalToNumber_def)
  show ?thesis
  proof (cases x)
    case (Fin m e)
    have "k' \<noteq> 0" using xr Fin by (auto simp: roundToDouble_def split: if_splits)
    with k' have kpos: "0 < k'" by simp
    have rd: "roundToDouble neg k' (10 ^ 8) = Fin m e" using xr Fin by simp
    have wfm: "isNumber (Fin m e)" using kpos _ rd by (rule roundToDouble_Fin(1)) simp
    have core: "parseFloat (toFixed (Fin m e) 8) = Fin m e
        \<and> (\<exists>e3 ds. Decimal_new (toFixed (Fin m e) 8) = Inr (DFinite (m < 0) e3 ds)
              \<and> parseFloat (Decimal_toString (DFinite (m < 0) e3 ds)) = Fin m e)"
    proof (cases "atLeast1e21 m e")
      case True
      from encode_large(1,3) [OF wfm True] show ?thesis by blast
    next
      case False
      define K where "K = scaledNearest m e 8"
      have dk: "decimalToNumber neg k' (- 8) = Fin m e" using x8 Fin by simp
      have Kpos: "0 < K" and num: "decimalToNumber (m < 0) K (- 8) = Fin m e"
        using nearest_units(2,3) [OF kpos dk False] by (simp_all add: K_def)
      from encode_small(1,3) [OF False] Kpos num show ?thesis
        unfolding K_def [symmetric] by auto
    qed
    then obtain e3 ds where pf: "parseFloat (toFixed (Fin m e) 8) = Fin m e"
      and dn: "Decimal_new (toFixed (Fin m e) 8) = Inr (DFinite (m < 0) e3 ds)"
      and rt: "parseFloat (Decimal_toString (DFinite (m < 0) e3 ds)) = Fin m e" by blast
    obtain e3' ds' where dn': "Decimal_new (toFixed (Fin m e) 8) = Inr (DFinite (m < 0) e3' ds')"
      and fw: "floatToWire (Fin m e) =
                 (if numberGe (mathAbs (numberSub (parseFloat (toFixed (Fin m e) 8)) (Fin m e))) tolerance
                  then Inl (Error ''floatToWire causes rounding'')
                  else Inr (Decimal_toString (DFinite (m < 0) e3' ds')))"
      using floatToWire_Fin [OF wfm] by blast
    from dn dn' have same: "e3' = e3" "ds' = ds" by simp_all
    have "floatToWire (Fin m e) = Inr (Decimal_toString (DFinite (m < 0) e3 ds))"
      using fw not_ge_tolerance_zero [of m e] by (simp add: pf same)
    with rt show ?thesis unfolding Fin by (simp add: strictEq_def)
  next
    case NaN
    with xr show ?thesis using roundToDouble_not_NaN [of neg k' "10 ^ 8"] by simp
  next
    case PosInf
    then show ?thesis using floatToWire_special parseFloat_Infinity_text by (simp add: strictEq_def)
  next
    case NegInf
    then show ?thesis using floatToWire_special parseFloat_Infinity_text by (simp add: strictEq_def)
  next
    case PosZero
    then show ?thesis using floatToWire_special parseFloat_zero_text by (simp add: strictEq_def)
  next
    case NegZero
    then show ?thesis using floatToWire_special parseFloat_zero_text by (simp add: strictEq_def)
  qed
qed

text \<open>
  Witness for C3: the number \<open>0.3\<close>, which is not a multiple of \<open>10^-8\<close> itself; its text
  with eight fraction digits is \<open>0.30000000\<close>.
\<close>

theorem round_trip_witness:
  "(0::int) \<le> 3 \<and> (0::int) \<le> 1 \<and> (1::int) \<le> 8
   \<and> decimalToNumber False 3 (- 1) = Fin 5404319552844595 (- 54)
   \<and> \<not> fractionDigitsAtMost (Fin 5404319552844595 (- 54)) 8
   \<and> toFixed (Fin 5404319552844595 (- 54)) 8 = ''0.30000000''
   \<and> floatToWire (Fin 5404319552844595 (- 54)) = Inr ''0.3''
   \<and> parseFloat ''0.3'' = Fin 5404319552844595 (- 54)"
proof -
  have v: "decimalToNumber False 3 (- 1) = Fin 5404319552844595 (- 54)" by code_simp
  have n: "\<not> fractionDigitsAtMost (Fin 5404319552844595 (- 54)) 8" by code_simp
  have f: "toFixed (Fin 5404319552844595 (- 54)) 8 = ''0.30000000''" by code_simp
  have w: "floatToWire (Fin 5404319552844595 (- 54)) = Inr ''0.3''" by code_simp
  from round_trip [where k = 3 and j = 1 and neg = False and x = "Fin 5404319552844595 (- 54)"] v
  obtain str where "floatToWire (Fin 5404319552844595 (- 54)) = Inr str"
    and "parseFloat str = Fin 5404319552844595 (- 54)" by auto
  with w have "parseFloat ''0.3'' = Fin 5404319552844595 (- 54)" by simp
  with v n f w show ?thesis by simp
qed

lemma zero_text_decimals:
  "Decimal_new ''0.00000000'' = Inr (DFinite False 0 ''0'')"
  "Decimal_new ''-0.00000000'' = Inr (DFinite True 0 ''0'')"
  "Decimal_toString (DFinite False 0 ''0'') = ''0''"
  "Decimal_toString (DFinite True 0 ''0'') = ''0''"
  by code_simp+

lemma special_not_negative_zero:
  "\<not> negativeZeroText ''NaN''" "\<not> negativeZeroText ''Infinity''"
  "\<not> negativeZeroText ''-Infinity''" "\<not> negativeZeroText ''0''"
  by code_simp+

text \<open>
  Claim C4.  Negative zero is encoded as \<open>0\<close>, and so is \<open>-1e-13\<close>.  Whenever the text
  with eight fraction digits is \<open>0.00000000\<close> or \<open>-0.00000000\<close> and the encoder accepts
  the input, it returns \<open>0\<close>.  No string the encoder returns for a number is a minus
  sign before a numeral of value zero.
\<close>

theorem no_negative_zero:
  "floatToWire NegZero = Inr ''0''
   \<and> floatToWire (decimalToNumber True 1 (- 13)) = Inr ''0''
   \<and> (toFixed x 8 = ''0.00000000'' \<or> toFixed x 8 = ''-0.00000000'' \<longrightarrow>
        floatToWire x = Inr str \<longrightarrow> str = ''0'')
   \<and> (isNumber x \<longrightarrow> floatToWire x = Inr str \<longrightarrow> \<not> negativeZeroText str)"
proof (intro conjI impI)
  show "floatToWire NegZero = Inr ''0''" by (rule floatToWire_special)
  show "floatToWire (decimalToNumber True 1 (- 13)) = Inr ''0''" by code_simp
  show "str = ''0''"
    if "toFixed x 8 = ''0.00000000'' \<or> toFixed x 8 = ''-0.00000000''" "floatToWire x = Inr str"
    using that
    by (auto simp: floatToWire_def Let_def zero_text_decimals split: if_splits)
  show "\<not> negativeZeroText str" if wf: "isNumber x" and fw: "floatToWire x = Inr str"
  proof (cases x)
    case (Fin m e)
    with wf have wfm: "isNumber (Fin m e)" by simp
    obtain e3 ds where dsd: "list_all isDigit ds" "ds \<noteq> []" "ds = ''0'' \<or> hd ds \<noteq> CHR ''0''"
      and out: "floatToWire (Fin m e) =
               (if numberGe (mathAbs (numberSub (parseFloat (toFixed (Fin m e) 8)) (Fin m e))) tolerance
                then Inl (Error ''floatToWire causes rounding'')
                else Inr (Decimal_toString (DFinite (m < 0) e3 ds)))"
      using floatToWire_Fin [OF wfm] by blast
    from out fw have "str = Decimal_toString (DFinite (m < 0) e3 ds)"
      unfolding Fin by (simp split: if_splits)
    with toString_not_negative_zero [OF dsd] show ?thesis by simp
  qed (use fw floatToWire_special special_not_negative_zero in auto)
qed

text \<open>Witness for C4: the number \<open>-1e-13\<close>, whose text is \<open>-0.00000000\<close>.\<close>

theorem no_negative_zero_witness:
  "toFixed (Fin (- 7922816251426434) (- 96)) 8 = ''-0.00000000''
   \<and> isNumber (Fin (- 7922816251426434) (- 96))
   \<and> floatToWire (Fin (- 7922816251426434) (- 96)) = Inr ''0''
   \<and> \<not> negativeZeroText ''0''"
proof -
  have h1: "toFixed (Fin (- 7922816251426434) (- 96)) 8 = ''-0.00000000''" by code_simp
  have h2: "isNumber (Fin (- 7922816251426434) (- 96))" by (simp add: isNumber_def)
  have h3: "floatToWire (Fin (- 7922816251426434) (- 96)) = Inr ''0''" by code_simp
  from no_negative_zero [of "Fin (- 7922816251426434) (- 96)" "''0''"] h1 h2 h3
  show ?thesis by simp
qed




text \<open>
  Claim C9, as the code has it.  The number \<open>1e-7\<close> is encoded as \<open>1e-7\<close>.  For a finite
  non-zero number that the encoder accepts, with \<open>K\<close> the number of units of \<open>10^-8\<close>
  nearest to its magnitude, the string returned holds the exponent marker \<open>e\<close> exactly
  when the number is at least \<open>10^21\<close> in magnitude or \<open>1 \<le> K \<le> 99\<close>.  In particular, for an
  accepted number of magnitude at most \<open>1e-7\<close>: when \<open>K\<close> is not \<open>0\<close> the string holds the
  exponent marker and is not a plain decimal numeral, and when \<open>K\<close> is \<open>0\<close> the string is
  \<open>0\<close>.
\<close>

theorem exponent_notation_output:
  "floatToWire (decimalToNumber False 1 (- 7)) = Inr ''1e-7''
   \<and> (isNumber (Fin m e) \<longrightarrow> floatToWire (Fin m e) = Inr str \<longrightarrow>
        (CHR ''e'' \<in> set str) =
          (atLeast1e21 m e \<or> (1 \<le> scaledNearest m e 8 \<and> scaledNearest m e 8 \<le> 99))
        \<and> (numberGe (decimalToNumber False 1 (- 7)) (mathAbs (Fin m e)) \<longrightarrow>
             (if scaledNearest m e 8 = 0 then str = ''0''
              else CHR ''e'' \<in> set str \<and> \<not> isPlainDecimal str)))"
proof (intro conjI impI)
  show "floatToWire (decimalToNumber False 1 (- 7)) = Inr ''1e-7''" by code_simp
next
  assume wf: "isNumber (Fin m e)" and out: "floatToWire (Fin m e) = Inr str"
  from output_form [OF wf out]
  show "(CHR ''e'' \<in> set str) =
          (atLeast1e21 m e \<or> (1 \<le> scaledNearest m e 8 \<and> scaledNearest m e 8 \<le> 99))"
    by (auto split: if_splits)
next
  assume wf: "isNumber (Fin m e)" and out: "floatToWire (Fin m e) = Inr str"
    and le: "numberGe (decimalToNumber False 1 (- 7)) (mathAbs (Fin m e))"
  have small: "\<not> atLeast1e21 m e" and ub: "scaledNearest m e 8 \<le> 10"
    using small_magnitude_units [OF le] by simp_all
  have nn: "0 \<le> scaledNearest m e 8" using small by (rule scaledNearest_bounds(1))
  from output_form [OF wf out] small ub nn
  show "if scaledNearest m e 8 = 0 then str = ''0''
        else CHR ''e'' \<in> set str \<and> \<not> isPlainDecimal str"
    by (auto split: if_splits)
qed

text \<open>Witness for C9: the number \<open>1e-7\<close>, which is nearest to \<open>10\<close> units.\<close>

theorem exponent_notation_output_witness:
  "isNumber (Fin 7555786372591432 (- 76))
   \<and> decimalToNumber False 1 (- 7) = Fin 7555786372591432 (- 76)
   \<and> floatToWire (Fin 7555786372591432 (- 76)) = Inr ''1e-7''
   \<and> numberGe (decimalToNumber False 1 (- 7)) (mathAbs (Fin 7555786372591432 (- 76)))
   \<and> scaledNearest 7555786372591432 (- 76) 8 = 10
   \<and> \<not> atLeast1e21 7555786372591432 (- 76)
   \<and> CHR ''e'' \<in> set ''1e-7'' \<and> \<not> isPlainDecimal ''1e-7''"
proof -
  have h1: "isNumber (Fin 7555786372591432 (- 76))" by (simp add: isNumber_def)
  have h2: "floatToWire (Fin 7555786372591432 (- 76)) = Inr ''1e-7''" by code_simp
  have h3: "numberGe (decimalToNumber False 1 (- 7)) (mathAbs (Fin 7555786372591432 (- 76)))"
    by code_simp
  have h4: "scaledNearest 7555786372591432 (- 76) 8 = 10" by code_simp
  have h5: "\<not> atLeast1e21 7555786372591432 (- 76)" by code_simp
  from exponent_notation_output [of 7555786372591432 "- 76" "''1e-7''"] h1 h2 h3 h4 h5 lit_1e7_value
  show ?thesis by simp
qed

text \<open>
  Counterexample to C9 as stated: the number \<open>5e-13\<close> is not zero, is at most \<open>1e-7\<close> and
  is accepted, and the string returned for it is \<open>0\<close>, with no exponent marker.
\<close>

theorem tiny_number_encoded_as_zero:
  "decimalToNumber False 5 (- 13) = Fin 4951760157141521 (- 93)
   \<and> numberGe (decimalToNumber False 1 (- 7)) (mathAbs (decimalToNumber False 5 (- 13)))
   \<and> floatToWire (decimalToNumber False 5 (- 13)) = Inr ''0''
   \<and> CHR ''e'' \<notin> set ''0''"
  by code_simp

section \<open>Client order ids: properties\<close>

lemma hexDigits_nonempty: "hexDigits n \<noteq> []"
  by (subst hexDigits.simps) simp

lemma hexDigits_length_le:
  "0 \<le> n \<Longrightarrow> (length (hexDigits n) \<le> Suc k) = (n < 16 ^ Suc k)"
proof (induction k arbitrary: n)
  case 0
  show ?case
  proof (cases "n < 16")
    case True
    then show ?thesis by (subst hexDigits.simps) simp
  next
    case False
    have "length (hexDigits (n div 16)) \<noteq> 0"
      using hexDigits_nonempty by simp
    with False show ?thesis by (subst hexDigits.simps) simp
  qed
next
  case (Suc k)
  show ?case
  proof (cases "n < 16")
    case True
    have "(16::int) \<le> 16 ^ Suc (Suc k)"
      by (rule self_le_power) simp_all
    with True show ?thesis by (subst hexDigits.simps) simp
  next
    case False
    then have nn: "0 \<le> n div 16" by simp
    have "(n div 16 < X) = (n < 16 * X)" for X :: int
      by presburger
    then have "(n div 16 < 16 ^ Suc k) = (n < 16 ^ Suc (Suc k))"
      by simp
    with False Suc.IH [OF nn] show ?thesis by (subst hexDigits.simps) simp
  qed
qed

text \<open>
  Claim C7, as the code has it.  Constructing a client order id, from a string or from an
  integer, fails exactly when the text does not start with \<open>0x\<close> or the rest of it is
  not 32 characters long, and succeeds otherwise; the characters after the prefix are
  not inspected.  An integer is printed in base 16 and padded with zeros to 32
  characters, so a non-negative integer is accepted exactly when it is below \<open>2^128\<close>.
  \<open>fromInt 1\<close> is the prefix, 31 zeros and \<open>1\<close>; a payload of 31 characters is refused.
\<close>

theorem cloid_construction:
  "fromStr raw =
     (if take 2 raw \<noteq> ''0x'' then Inl (Error ''cloid is not a hex string'')
      else if length (drop 2 raw) \<noteq> 32 then Inl (Error ''cloid is not 16 bytes'')
      else Inr (Cloid raw))
   \<and> fromInt n =
     (if length (toString16 n) \<le> 32
      then Inr (Cloid (''0x'' @ replicate (32 - length (toString16 n)) (CHR ''0'') @ toString16 n))
      else Inl (Error ''cloid is not 16 bytes''))
   \<and> (0 \<le> n \<longrightarrow> (length (toString16 n) \<le> 32) = (n < 2 ^ 128))
   \<and> fromInt 1 = Inr (Cloid (''0x'' @ replicate 31 (CHR ''0'') @ ''1''))
   \<and> (length payload = 31 \<longrightarrow> fromStr (''0x'' @ payload) = Inl (Error ''cloid is not 16 bytes''))"
proof (intro conjI impI)
  show "fromStr raw =
     (if take 2 raw \<noteq> ''0x'' then Inl (Error ''cloid is not a hex string'')
      else if length (drop 2 raw) \<noteq> 32 then Inl (Error ''cloid is not 16 bytes'')
      else Inr (Cloid raw))"
    by (simp add: fromStr_def Cloid_new_def validate_def)
  show "fromInt n =
     (if length (toString16 n) \<le> 32
      then Inr (Cloid (''0x'' @ replicate (32 - length (toString16 n)) (CHR ''0'') @ toString16 n))
      else Inl (Error ''cloid is not 16 bytes''))"
    by (simp add: fromInt_def Cloid_new_def validate_def padStart_def)
  show "(length (toString16 n) \<le> 32) = (n < 2 ^ 128)" if "0 \<le> n"
  proof -
    have "(length (hexDigits n) \<le> Suc 31) = (n < 16 ^ Suc 31)"
      using that by (rule hexDigits_length_le)
    moreover have "(16::int) ^ Suc 31 = 2 ^ 128" by simp
    ultimately show ?thesis using that by (simp add: toString16_def)
  qed
  show "fromInt 1 = Inr (Cloid (''0x'' @ replicate 31 (CHR ''0'') @ ''1''))"
    by (simp add: fromInt_def Cloid_new_def validate_def padStart_def toString16_def
        hexDigits.simps hexChar_def)
  show "fromStr (''0x'' @ payload) = Inl (Error ''cloid is not 16 bytes'')" if "length payload = 31"
    using that by (simp add: fromStr_def Cloid_new_def validate_def)
qed

text \<open>Witness for C7: a well-formed id, the integer 255 and a payload of 31 characters.\<close>

theorem cloid_construction_witness:
  "fromStr ''0x0123456789abcdef0123456789abcdef'' = Inr (Cloid ''0x0123456789abcdef0123456789abcdef'')
   \<and> fromInt 255 = Inr (Cloid ''0x000000000000000000000000000000ff'')
   \<and> (0::int) \<le> 255 \<and> (255::int) < 2 ^ 128
   \<and> length ''0123456789abcdef0123456789abcde'' = 31
   \<and> fromStr ''0x0123456789abcdef0123456789abcde'' = Inl (Error ''cloid is not 16 bytes'')"
  using cloid_construction [of "''0x0123456789abcdef0123456789abcdef''" 255 "''0123456789abcdef0123456789abcde''"]
  by (simp add: toString16_def hexDigits.simps hexChar_def eval_nat_numeral)

text \<open>
  Counterexample to C7 as stated: a payload of 32 characters none of which is a
  hexadecimal digit is accepted.
\<close>

theorem cloid_non_hex_payload_accepted:
  "fromStr ''0xzzzzzzzzzzzzzzzzzzzzzzzzzzzzzzzz'' = Inr (Cloid ''0xzzzzzzzzzzzzzzzzzzzzzzzzzzzzzzzz'')
   \<and> \<not> list_all (\<lambda>ch. ch \<in> set ''0123456789abcdefABCDEF'') ''zzzzzzzzzzzzzzzzzzzzzzzzzzzzzzzz''"
  by (simp add: fromStr_def Cloid_new_def validate_def)

section \<open>Order types, orders and actions: properties\<close>

lemma floatToWire_error:
  "floatToWire x = Inl err \<Longrightarrow>
     err = Error ''floatToWire causes rounding'' \<or>
     (\<exists>v. err = Error (''[DecimalError] Invalid argument: '' @ v))"
  by (auto simp: floatToWire_def Decimal_new_def Let_def split: if_splits sum.splits)

lemma floatToWire_not_invalid_order_type:
  "floatToWire x \<noteq> Inl (Error ''Invalid order type'')"
  using floatToWire_error [of x "Error ''Invalid order type''"] by auto

text \<open>
  Claim C8, as the code has it.  The action assembler takes the wire records only.  The
  action it returns has the discriminator \<open>order\<close>, the records exactly as given (same
  order, duplicates kept, nothing added or removed) and the grouping mode \<open>na\<close>, always.
\<close>

theorem order_action_fixed_grouping:
  "type (orderWiresToOrderAction ws) = ''order''
   \<and> orders (orderWiresToOrderAction ws) = ws
   \<and> grouping (orderWiresToOrderAction ws) = ''na''"
  by (simp add: orderWiresToOrderAction_def)

text \<open>
  Counterexample to C8 as stated: for a caller who wants the grouping mode
  \<open>normalTpsl\<close> the action does not carry it.
\<close>

theorem order_action_grouping_counterexample:
  "grouping (orderWiresToOrderAction []) \<noteq> ''normalTpsl''"
  by (simp add: orderWiresToOrderAction_def)

text \<open>
  Claim C10.  When the key \<open>limit\<close> is present in the order type, whatever its value and
  whatever the trigger property holds, the normalizer returns the wire variant with
  that limit value unchanged and no trigger: not the trigger variant, not an error.
\<close>

theorem limit_key_presence_selects_limit:
  "limit ot \<noteq> Absent \<Longrightarrow> orderTypeToWire ot = Inr (OrderTypeWire (limit ot) Absent)"
  by (cases "limit ot") (simp_all add: orderTypeToWire_def hasKey_def getField_def)

text \<open>Witness for C10: the limit key holds \<open>undefined\<close> and a trigger is populated.\<close>

theorem limit_key_presence_selects_limit_witness:
  "limit (OrderType Undefined (Present (TriggerOrderType PosZero True Tp))) \<noteq> Absent
   \<and> orderTypeToWire (OrderType Undefined (Present (TriggerOrderType PosZero True Tp)))
       = Inr (OrderTypeWire Undefined Absent)"
  using limit_key_presence_selects_limit [of "OrderType Undefined (Present (TriggerOrderType PosZero True Tp))"]
  by simp

text \<open>
  Claim C6, as the code has it.  The normalizer fails with the error
  \<open>Invalid order type\<close> exactly when the key \<open>limit\<close> is absent and the trigger property
  is not populated.  The order encoder then returns an error and no wire record.  The
  decimal encoder never fails with that error, and its own error is a different one.
\<close>

theorem invalid_order_type_iff:
  "(orderTypeToWire ot = Inl (Error ''Invalid order type'')) =
     (limit ot = Absent \<and> \<not> populated (trigger ot))
   \<and> (orderTypeToWire (order_type order) = Inl (Error ''Invalid order type'') \<longrightarrow>
        (\<exists>err. orderRequestToOrderWire order asset = Inl err))
   \<and> floatToWire x \<noteq> Inl (Error ''Invalid order type'')
   \<and> Error ''Invalid order type'' \<noteq> Error ''floatToWire causes rounding''"
proof (intro conjI impI)
  show "(orderTypeToWire ot = Inl (Error ''Invalid order type'')) =
     (limit ot = Absent \<and> \<not> populated (trigger ot))"
  proof (cases "limit ot")
    case Absent
    show ?thesis
    proof (cases "trigger ot")
      case (Present tr)
      with Absent show ?thesis
        using floatToWire_not_invalid_order_type [of "triggerPx tr"]
        by (auto simp: orderTypeToWire_def hasKey_def populated_def split: sum.splits)
    qed (simp_all add: Absent orderTypeToWire_def hasKey_def populated_def)
  qed (simp_all add: orderTypeToWire_def hasKey_def)
  show "\<exists>err. orderRequestToOrderWire order asset = Inl err"
    if "orderTypeToWire (order_type order) = Inl (Error ''Invalid order type'')"
    using that by (auto simp: orderRequestToOrderWire_def split: sum.splits)
  show "floatToWire x \<noteq> Inl (Error ''Invalid order type'')"
    by (rule floatToWire_not_invalid_order_type)
  show "Error ''Invalid order type'' \<noteq> Error ''floatToWire causes rounding''"
    by simp
qed

text \<open>Witness for C6: an order type with no limit key and an unpopulated trigger.\<close>

theorem invalid_order_type_iff_witness:
  "orderTypeToWire (OrderType Absent Undefined) = Inl (Error ''Invalid order type'')
   \<and> (\<exists>err. orderRequestToOrderWire (exampleOrder\<lparr>order_type := OrderType Absent Undefined\<rparr>) PosZero = Inl err)"
proof -
  have h: "orderTypeToWire (OrderType Absent Undefined) = Inl (Error ''Invalid order type'')"
    by (simp add: orderTypeToWire_def hasKey_def)
  from invalid_order_type_iff [of "OrderType Absent Undefined"
      "exampleOrder\<lparr>order_type := OrderType Absent Undefined\<rparr>" PosZero PosZero] h
  show ?thesis by simp
qed

text \<open>
  Counterexample to C6 as stated: with the key \<open>limit\<close> present and holding
  \<open>undefined\<close>, neither variant is populated and yet the normalizer succeeds.
\<close>

theorem unpopulated_limit_key_accepted:
  "\<not> populated (limit (OrderType Undefined Absent))
   \<and> \<not> populated (trigger (OrderType Undefined Absent))
   \<and> orderTypeToWire (OrderType Undefined Absent) = Inr (OrderTypeWire Undefined Absent)"
  by (simp add: orderTypeToWire_def hasKey_def getField_def populated_def)

lemma example_px: "floatToWire (decimalToNumber False 90000 0) = Inr ''90000''"
  by code_simp

lemma example_sz: "floatToWire (decimalToNumber False 1 (- 3)) = Inr ''0.001''"
  by code_simp

text \<open>
  Claim C1.  For an order request that carries no client order id (the property is
  absent, \<open>undefined\<close> or \<open>null\<close>), the wire record the encoder produces from the
  encoded price, the encoded size and the normalized order type has the fields \<open>a\<close>,
  \<open>b\<close>, \<open>p\<close>, \<open>s\<close>, \<open>r\<close>, \<open>t\<close> and no key \<open>c\<close>; no record it returns for such a request has
  the key \<open>c\<close>.  For the example request and the instrument index 0 the record is
  \<open>{a: 0, b: true, p: "90000", s: "0.001", r: false, t: {limit: {tif: "Gtc"}}}\<close>.
\<close>

theorem order_without_cloid_has_no_c:
  "(cloid order = Absent \<or> cloid order = Undefined \<or> cloid order = Present None \<longrightarrow>
      floatToWire (limit_px order) = Inr px \<longrightarrow>
      floatToWire (sz order) = Inr qty \<longrightarrow>
      orderTypeToWire (order_type order) = Inr tw \<longrightarrow>
      orderRequestToOrderWire order asset =
        Inr \<lparr>a = asset, b = is_buy order, p = px, s = qty, r = reduce_only order, t = tw,
             c = Absent\<rparr>)
   \<and> (cloid order = Absent \<or> cloid order = Undefined \<or> cloid order = Present None \<longrightarrow>
      orderRequestToOrderWire order asset = Inr w \<longrightarrow> c w = Absent)
   \<and> orderRequestToOrderWire exampleOrder PosZero =
        Inr \<lparr>a = PosZero, b = True, p = ''90000'', s = ''0.001'', r = False,
             t = OrderTypeWire (Present (LimitOrderType Gtc)) Absent, c = Absent\<rparr>"
proof (intro conjI impI)
  assume nc: "cloid order = Absent \<or> cloid order = Undefined \<or> cloid order = Present None"
  show "orderRequestToOrderWire order asset =
        Inr \<lparr>a = asset, b = is_buy order, p = px, s = qty, r = reduce_only order, t = tw,
             c = Absent\<rparr>"
    if "floatToWire (limit_px order) = Inr px" "floatToWire (sz order) = Inr qty"
      "orderTypeToWire (order_type order) = Inr tw"
    using nc that by (auto simp: orderRequestToOrderWire_def)
  show "c w = Absent" if "orderRequestToOrderWire order asset = Inr w"
    using nc that by (auto simp: orderRequestToOrderWire_def split: sum.splits)
next
  show "orderRequestToOrderWire exampleOrder PosZero =
        Inr \<lparr>a = PosZero, b = True, p = ''90000'', s = ''0.001'', r = False,
             t = OrderTypeWire (Present (LimitOrderType Gtc)) Absent, c = Absent\<rparr>"
    by (simp add: orderRequestToOrderWire_def exampleOrder_def example_px example_sz
        orderTypeToWire_def hasKey_def getField_def)
qed

text \<open>Witness for C1: the example request.\<close>

theorem order_without_cloid_has_no_c_witness:
  "cloid exampleOrder = Absent
   \<and> floatToWire (limit_px exampleOrder) = Inr ''90000''
   \<and> floatToWire (sz exampleOrder) = Inr ''0.001''
   \<and> orderTypeToWire (order_type exampleOrder) = Inr (OrderTypeWire (Present (LimitOrderType Gtc)) Absent)
   \<and> orderRequestToOrderWire exampleOrder PosZero =
        Inr \<lparr>a = PosZero, b = is_buy exampleOrder, p = ''90000'', s = ''0.001'',
             r = reduce_only exampleOrder,
             t = OrderTypeWire (Present (LimitOrderType Gtc)) Absent, c = Absent\<rparr>
   \<and> c \<lparr>a = PosZero, b = True, p = ''90000'', s = ''0.001'', r = False,
             t = OrderTypeWire (Present (LimitOrderType Gtc)) Absent, c = Absent\<rparr> = Absent"
proof -
  have h1: "cloid exampleOrder = Absent" by (simp add: exampleOrder_def)
  have h2: "floatToWire (limit_px exampleOrder) = Inr ''90000''"
    by (simp add: exampleOrder_def example_px)
  have h3: "floatToWire (sz exampleOrder) = Inr ''0.001''"
    by (simp add: exampleOrder_def example_sz)
  have h4: "orderTypeToWire (order_type exampleOrder) = Inr (OrderTypeWire (Present (LimitOrderType Gtc)) Absent)"
    by (simp add: exampleOrder_def orderTypeToWire_def hasKey_def getField_def)
  from order_without_cloid_has_no_c [of exampleOrder "''90000''" "''0.001''"
      "OrderTypeWire (Present (LimitOrderType Gtc)) Absent" PosZero] h1 h2 h3 h4
  show ?thesis by simp
qed

end
